theory Spec2Isabelle
  imports Main "HOL-Library.Word" "HOL-Library.Log_Nat"
begin

unbundle bit_operations_syntax

section \<open>Command-line parameters and cache data structures\<close>

text \<open>
  The simulator \<^verbatim>\<open>csim.c\<close> keeps its configuration in the globals \<^verbatim>\<open>S\<close>, \<^verbatim>\<open>K\<close>,
  \<^verbatim>\<open>B\<close> (C \<^verbatim>\<open>int\<close>) and \<^verbatim>\<open>policy\<close>. They are set once by \<^verbatim>\<open>parse_arguments\<close> and
  never change afterwards, so the model passes them around as one record. The fields are
  natural numbers: \<^verbatim>\<open>parse_arguments\<close> leaves the program when one of them is not
  positive.
\<close>

datatype Policy = FIFO | LRU

record geometry =
  S :: nat
  K :: nat
  B :: nat
  policy :: Policy

text \<open>
  What \<^verbatim>\<open>parse_arguments\<close> guarantees and the proofs below need: the three numbers are
  positive and fit a C \<^verbatim>\<open>int\<close>. (The program also insists on powers of two for
  \<^verbatim>\<open>S\<close> and \<^verbatim>\<open>B\<close>; no theorem below depends on that.)
\<close>

definition positive_geometry :: "geometry \<Rightarrow> bool" where
  "positive_geometry g \<longleftrightarrow>
     0 < S g \<and> S g < 2 ^ 31 \<and> 0 < K g \<and> K g < 2 ^ 31 \<and> 0 < B g \<and> B g < 2 ^ 31"

text \<open>
  \<^verbatim>\<open>__builtin_clz\<close> is a compiler builtin: the number of leading zero bits of a 32-bit
  value, which is 32 minus its bit length (\<open>floorlog 2\<close>); the compiler leaves it
  undefined at 0. \<^verbatim>\<open>INT_LOG2(x)\<close> is the macro \<^verbatim>\<open>(31 - __builtin_clz(x))\<close>.
\<close>

definition builtin_clz :: "nat \<Rightarrow> nat" where
  "builtin_clz x = 32 - floorlog 2 x"

definition INT_LOG2 :: "nat \<Rightarrow> nat" where
  "INT_LOG2 x = 31 - builtin_clz x"

definition INT_MAX :: int where
  "INT_MAX = 2147483647"

text \<open>
  \<^verbatim>\<open>struct Block\<close>: the tag is a C \<^verbatim>\<open>long\<close> that only ever receives the value of an
  \<^verbatim>\<open>unsigned long\<close> and is only compared for equality, so it is a 64-bit word here.
  \<^verbatim>\<open>trackID\<close> is a C \<^verbatim>\<open>int\<close>. A set is its array of \<^verbatim>\<open>K\<close> blocks, the cache the array
  of its \<^verbatim>\<open>S\<close> sets.
\<close>

record Block =
  Valid :: bool
  tag :: "64 word"
  trackID :: int

type_synonym Set = "Block list"

type_synonym Cache = "Set list"

text \<open>
  The mutable globals of the simulation: the cache behind \<^verbatim>\<open>currCache\<close>, the three
  statistics counters and the access clock \<^verbatim>\<open>count\<close>, all C \<^verbatim>\<open>int\<close>.
\<close>

record sim_state =
  currCache :: Cache
  miss_count :: int
  hit_count :: int
  eviction_count :: int
  count :: int

text \<open>
  C leaves two things the program can do undefined. Incrementing an \<^verbatim>\<open>int\<close> that
  holds \<^verbatim>\<open>INT_MAX\<close> is a signed overflow, and \<^verbatim>\<open>setIndexToEvict\<close> is read
  uninitialised when the eviction scan finds no \<^verbatim>\<open>trackID\<close> below \<^verbatim>\<open>INT_MAX\<close>. Both
  are error values of the model.
\<close>

datatype error = SignedOverflow | UninitialisedIndex

definition incr :: "int \<Rightarrow> error + int" where
  "incr x = (if x = INT_MAX then Inl SignedOverflow else Inr (x + 1))"

section \<open>Allocation\<close>

text \<open>
  \<^verbatim>\<open>allocate_cache\<close> obtains every block from \<^verbatim>\<open>malloc\<close> and clears only \<^verbatim>\<open>Valid\<close>;
  \<^verbatim>\<open>tag\<close> and \<^verbatim>\<open>trackID\<close> keep whatever the allocator returned. The parameter
  \<open>heap\<close> is that content, per set and line.
\<close>

definition allocate_cache :: "geometry \<Rightarrow> (nat \<Rightarrow> nat \<Rightarrow> Block) \<Rightarrow> Cache" where
  "allocate_cache g heap =
     map (\<lambda>i. map (\<lambda>j. (heap i j)\<lparr>Valid := False\<rparr>) [0..<K g]) [0..<S g]"

definition initial_state :: "geometry \<Rightarrow> (nat \<Rightarrow> nat \<Rightarrow> Block) \<Rightarrow> sim_state" where
  "initial_state g heap =
     \<lparr>currCache = allocate_cache g heap, miss_count = 0, hit_count = 0,
      eviction_count = 0, count = 0\<rparr>"

section \<open>One memory access\<close>

text \<open>Address decoding, as the first lines of \<^verbatim>\<open>access_data\<close> compute it.\<close>

definition set_mask :: "geometry \<Rightarrow> 64 word" where
  "set_mask g = ucast (push_bit (INT_LOG2 (S g)) (1 :: 32 word) - 1)"

definition setIndex :: "geometry \<Rightarrow> 64 word \<Rightarrow> nat" where
  "setIndex g addr = unat (drop_bit (INT_LOG2 (B g)) addr AND set_mask g)"

definition tagBits :: "geometry \<Rightarrow> 64 word \<Rightarrow> 64 word" where
  "tagBits g addr = drop_bit (INT_LOG2 (S g) + INT_LOG2 (B g)) addr"

text \<open>
  The lookup loop over the lines \<open>0..<K\<close> of the addressed set. It carries
  \<^verbatim>\<open>allValid\<close> and \<^verbatim>\<open>firstEmptySlot\<close> and leaves at the first valid line with the
  tag. The result's third component is \<^verbatim>\<open>hitBlockIndex\<close>; \<open>None\<close> stands for
  \<^verbatim>\<open>didHit == false\<close>, where the C variable is never read.
\<close>

fun lookup_loop ::
  "Set \<Rightarrow> 64 word \<Rightarrow> nat list \<Rightarrow> bool \<Rightarrow> nat \<Rightarrow> bool \<times> nat \<times> nat option" where
  "lookup_loop currSet t [] allValid firstEmptySlot = (allValid, firstEmptySlot, None)"
| "lookup_loop currSet t (i # is) allValid firstEmptySlot =
     (let currBlock = currSet ! i;
          currValid = Valid currBlock;
          currTag = tag currBlock;
          firstEmptySlot' = (if allValid \<and> \<not> currValid then i else firstEmptySlot);
          allValid' = (if allValid \<and> \<not> currValid then False else allValid)
      in if currTag = t \<and> currValid then (allValid', firstEmptySlot', Some i)
         else lookup_loop currSet t is allValid' firstEmptySlot')"

text \<open>
  The victim scan: \<^verbatim>\<open>minTrackID\<close> starts at \<^verbatim>\<open>INT_MAX\<close>, \<^verbatim>\<open>setIndexToEvict\<close>
  uninitialised (\<open>None\<close>); a line replaces the candidate only when its stamp is
  strictly smaller.
\<close>

fun evict_loop :: "Set \<Rightarrow> nat list \<Rightarrow> int \<Rightarrow> nat option \<Rightarrow> int \<times> nat option" where
  "evict_loop currSet [] minTrackID setIndexToEvict = (minTrackID, setIndexToEvict)"
| "evict_loop currSet (i # is) minTrackID setIndexToEvict =
     (if trackID (currSet ! i) < minTrackID
      then evict_loop currSet is (trackID (currSet ! i)) (Some i)
      else evict_loop currSet is minTrackID setIndexToEvict)"

text \<open>
  Writing a line of the addressed set. \<^verbatim>\<open>currSet\<close> is a copy of the \<^verbatim>\<open>struct Set\<close>,
  which holds the pointer to the blocks, so the writes land in the cache itself. The
  indices stay inside the arrays: the set index is below \<^verbatim>\<open>S\<close> (lemma
  \<open>setIndex_less\<close> below) and the line indices come from the loops over \<open>0..<K\<close>.
\<close>

definition write_block :: "Cache \<Rightarrow> nat \<Rightarrow> nat \<Rightarrow> Block \<Rightarrow> Cache" where
  "write_block c si i b = c[si := (c ! si)[i := b]]"

definition access_data :: "geometry \<Rightarrow> 64 word \<Rightarrow> sim_state \<Rightarrow> error + sim_state" where
  "access_data g addr s =
     (let si = setIndex g addr;
          t = tagBits g addr;
          currSet = currCache s ! si
      in case lookup_loop currSet t [0..<K g] True 0 of
           (allValid, firstEmptySlot, Some hitBlockIndex) \<Rightarrow>
             (let c = (if policy g = LRU
                       then write_block (currCache s) si hitBlockIndex
                              ((currSet ! hitBlockIndex)\<lparr>trackID := count s\<rparr>)
                       else currCache s)
              in case incr (hit_count s) of
                   Inl e \<Rightarrow> Inl e
                 | Inr h \<Rightarrow> Inr (s\<lparr>currCache := c, hit_count := h\<rparr>))
         | (allValid, firstEmptySlot, None) \<Rightarrow>
             if allValid then
               (case snd (evict_loop currSet [0..<K g] INT_MAX None) of
                  None \<Rightarrow> Inl UninitialisedIndex
                | Some setIndexToEvict \<Rightarrow>
                    (let c = write_block (currCache s) si setIndexToEvict
                               ((currSet ! setIndexToEvict)
                                  \<lparr>Valid := True, tag := t, trackID := count s\<rparr>)
                     in case incr (miss_count s) of
                          Inl e \<Rightarrow> Inl e
                        | Inr m \<Rightarrow>
                            (case incr (eviction_count s) of
                               Inl e \<Rightarrow> Inl e
                             | Inr ev \<Rightarrow>
                                 Inr (s\<lparr>currCache := c, miss_count := m,
                                        eviction_count := ev\<rparr>))))
             else
               (let c = write_block (currCache s) si firstEmptySlot
                          ((currSet ! firstEmptySlot)
                             \<lparr>Valid := True, tag := t, trackID := count s\<rparr>)
                in case incr (miss_count s) of
                     Inl e \<Rightarrow> Inl e
                   | Inr m \<Rightarrow> Inr (s\<lparr>currCache := c, miss_count := m\<rparr>)))"

section \<open>Replaying a trace\<close>

text \<open>
  A trace line that starts with a space, after \<^verbatim>\<open>strtok\<close>, \<^verbatim>\<open>strtoul\<close> and
  \<^verbatim>\<open>atoi\<close> have read it: the operation character, the address and the length
  (\<^verbatim>\<open>unsigned int\<close>). Lines that start with another character are skipped by the
  program before it reads anything from them and are not part of the model's trace.
\<close>

record trace_line =
  operation :: char
  address :: "64 word"
  len :: nat

text \<open>
  One pass over the bytes \<open>value + i\<close>. The two passes of \<^verbatim>\<open>replay_trace\<close> have the
  same body and differ in the mask: the first builds it from \<^verbatim>\<open>INT_LOG2(B)\<close>, the
  second from \<^verbatim>\<open>INT_LOG2(S)\<close>. \<^verbatim>\<open>prevSetVal\<close> is a \<^verbatim>\<open>long\<close> that starts at \<open>-1\<close>.
\<close>

definition pass_mask :: "nat \<Rightarrow> 64 word" where
  "pass_mask x = ucast (push_bit (INT_LOG2 x) (1 :: 32 word) - 1)"

fun replay_pass ::
  "geometry \<Rightarrow> 64 word \<Rightarrow> 64 word \<Rightarrow> nat list \<Rightarrow> int \<Rightarrow> sim_state \<Rightarrow> error + sim_state" where
  "replay_pass g msk v [] prevSetVal s = Inr s"
| "replay_pass g msk v (i # is) prevSetVal s =
     (let setValue = uint (drop_bit (INT_LOG2 (B g)) (v + of_nat i) AND msk)
      in if prevSetVal \<noteq> setValue then
           (case access_data g (v + of_nat i) s of
              Inl e \<Rightarrow> Inl e
            | Inr s1 \<Rightarrow>
                (case incr (count s1) of
                   Inl e \<Rightarrow> Inl e
                 | Inr c \<Rightarrow> replay_pass g msk v is setValue (s1\<lparr>count := c\<rparr>)))
         else replay_pass g msk v is prevSetVal s)"

definition replay_line :: "geometry \<Rightarrow> trace_line \<Rightarrow> sim_state \<Rightarrow> error + sim_state" where
  "replay_line g r s =
     (case replay_pass g (pass_mask (B g)) (address r) [0..<len r] (- 1) s of
        Inl e \<Rightarrow> Inl e
      | Inr s1 \<Rightarrow>
          if operation r = CHR ''M''
          then replay_pass g (pass_mask (S g)) (address r) [0..<len r] (- 1) s1
          else Inr s1)"

fun replay_trace :: "geometry \<Rightarrow> trace_line list \<Rightarrow> sim_state \<Rightarrow> error + sim_state" where
  "replay_trace g [] s = Inr s"
| "replay_trace g (r # rs) s =
     (case replay_line g r s of Inl e \<Rightarrow> Inl e | Inr s1 \<Rightarrow> replay_trace g rs s1)"

section \<open>The summary line\<close>

text \<open>\<^verbatim>\<open>printf\<close>'s \<^verbatim>\<open>%d\<close>: decimal digits, with a minus sign for a negative number.\<close>

fun show_nat :: "nat \<Rightarrow> string" where
  "show_nat n =
     (if n < 10 then [''0123456789'' ! n]
      else show_nat (n div 10) @ [''0123456789'' ! (n mod 10)])"

declare show_nat.simps [simp del]

definition show_int :: "int \<Rightarrow> string" where
  "show_int i = (if i < 0 then CHR ''-'' # show_nat (nat (- i)) else show_nat (nat i))"

definition print_summary :: "int \<Rightarrow> int \<Rightarrow> int \<Rightarrow> string" where
  "print_summary hits misses evictions =
     ''hits:'' @ show_int hits @ '' misses:'' @ show_int misses @
     '' evictions:'' @ show_int evictions @ [CHR 0x0A]"

text \<open>
  \<^verbatim>\<open>main\<close> after \<^verbatim>\<open>parse_arguments\<close>: allocate, replay, print. The result is what the
  program writes to standard output (nothing in the replay prints).
\<close>

definition csim_main ::
  "geometry \<Rightarrow> (nat \<Rightarrow> nat \<Rightarrow> Block) \<Rightarrow> trace_line list \<Rightarrow> error + string" where
  "csim_main g heap trace =
     (case replay_trace g trace (initial_state g heap) of
        Inl e \<Rightarrow> Inl e
      | Inr s \<Rightarrow> Inr (print_summary (hit_count s) (miss_count s) (eviction_count s)))"

section \<open>The sequence of accesses of a run\<close>

text \<open>
  \<^verbatim>\<open>replay_trace\<close> decides which addresses it passes to \<^verbatim>\<open>access_data\<close> from the
  trace alone: \<^verbatim>\<open>prevSetVal\<close> never depends on the cache. \<open>pass_accesses\<close> is that
  list for one pass, \<open>trace_accesses\<close> for a whole trace, and \<open>run_accesses\<close>
  performs a list of calls the way the loop body does, \<^verbatim>\<open>access_data(a); count++;\<close>.
  Lemma \<open>replay_trace_run\<close> below shows that replaying a trace is running its accesses.
\<close>

fun run_accesses :: "geometry \<Rightarrow> 64 word list \<Rightarrow> sim_state \<Rightarrow> error + sim_state" where
  "run_accesses g [] s = Inr s"
| "run_accesses g (a # as) s =
     (case access_data g a s of
        Inl e \<Rightarrow> Inl e
      | Inr s1 \<Rightarrow>
          (case incr (count s1) of
             Inl e \<Rightarrow> Inl e
           | Inr c \<Rightarrow> run_accesses g as (s1\<lparr>count := c\<rparr>)))"

fun pass_accesses :: "geometry \<Rightarrow> 64 word \<Rightarrow> 64 word \<Rightarrow> nat list \<Rightarrow> int \<Rightarrow> 64 word list" where
  "pass_accesses g msk v [] prevSetVal = []"
| "pass_accesses g msk v (i # is) prevSetVal =
     (let setValue = uint (drop_bit (INT_LOG2 (B g)) (v + of_nat i) AND msk)
      in if prevSetVal \<noteq> setValue
         then (v + of_nat i) # pass_accesses g msk v is setValue
         else pass_accesses g msk v is prevSetVal)"

definition line_accesses :: "geometry \<Rightarrow> trace_line \<Rightarrow> 64 word list" where
  "line_accesses g r =
     pass_accesses g (pass_mask (B g)) (address r) [0..<len r] (- 1) @
     (if operation r = CHR ''M''
      then pass_accesses g (pass_mask (S g)) (address r) [0..<len r] (- 1) else [])"

definition trace_accesses :: "geometry \<Rightarrow> trace_line list \<Rightarrow> 64 word list" where
  "trace_accesses g rs = concat (map (line_accesses g) rs)"

section \<open>Invariants of the simulation state\<close>

text \<open>
  The cache keeps its dimensions, no set holds a tag in two valid lines, every valid
  line was stamped before the current value of \<^verbatim>\<open>count\<close>, and the counters add up.
\<close>

definition wf_cache :: "geometry \<Rightarrow> Cache \<Rightarrow> bool" where
  "wf_cache g c \<longleftrightarrow> length c = S g \<and> (\<forall>cs \<in> set c. length cs = K g)"

definition set_distinct :: "Set \<Rightarrow> bool" where
  "set_distinct cs \<longleftrightarrow>
     (\<forall>i < length cs. \<forall>j < length cs.
        i \<noteq> j \<and> Valid (cs ! i) \<and> Valid (cs ! j) \<longrightarrow> tag (cs ! i) \<noteq> tag (cs ! j))"

definition distinct_tags :: "Cache \<Rightarrow> bool" where
  "distinct_tags c \<longleftrightarrow> (\<forall>cs \<in> set c. set_distinct cs)"

definition stamps_below :: "Cache \<Rightarrow> int \<Rightarrow> bool" where
  "stamps_below c n \<longleftrightarrow> (\<forall>cs \<in> set c. \<forall>b \<in> set cs. Valid b \<longrightarrow> trackID b < n)"

definition sim_inv :: "geometry \<Rightarrow> sim_state \<Rightarrow> bool" where
  "sim_inv g s \<longleftrightarrow>
     wf_cache g (currCache s) \<and> distinct_tags (currCache s) \<and>
     stamps_below (currCache s) (count s) \<and> count s \<le> INT_MAX \<and>
     hit_count s + miss_count s = count s \<and> 0 \<le> hit_count s \<and>
     0 \<le> eviction_count s \<and> eviction_count s \<le> miss_count s"

section \<open>Vocabulary of the claims\<close>

text \<open>
  The cache lines that the bytes \<open>address .. address + len - 1\<close> of a trace line fall
  into, each once, and whether the line of an address is in the cache: some valid line
  of its set holds its tag.
\<close>

definition lines_touched :: "geometry \<Rightarrow> trace_line \<Rightarrow> 64 word list" where
  "lines_touched g r =
     remdups (map (\<lambda>i. drop_bit (INT_LOG2 (B g)) (address r + of_nat i)) [0..<len r])"

definition cached :: "geometry \<Rightarrow> sim_state \<Rightarrow> 64 word \<Rightarrow> bool" where
  "cached g s addr \<longleftrightarrow>
     (\<exists>i < K g. Valid (currCache s ! setIndex g addr ! i) \<and>
                tag (currCache s ! setIndex g addr ! i) = tagBits g addr)"

text \<open>Memory that reads as zero, for the concrete runs below.\<close>

definition zero_heap :: "nat \<Rightarrow> nat \<Rightarrow> Block" where
  "zero_heap i j = \<lparr>Valid = False, tag = 0, trackID = 0\<rparr>"

section \<open>Evaluating the decoder at concrete geometries\<close>

lemma INT_LOG2_Suc_0: "INT_LOG2 (Suc 0) = 0"
  by (simp add: INT_LOG2_def builtin_clz_def compute_floorlog)

lemma INT_LOG2_2: "INT_LOG2 2 = 1"
  by (simp add: INT_LOG2_def builtin_clz_def compute_floorlog)

lemma INT_LOG2_16: "INT_LOG2 16 = 4"
  by (simp add: INT_LOG2_def builtin_clz_def compute_floorlog)

lemmas run_simps =
  initial_state_def allocate_cache_def replay_line_def pass_mask_def
  INT_LOG2_Suc_0 INT_LOG2_2 INT_LOG2_16 access_data_def setIndex_def tagBits_def set_mask_def
  write_block_def incr_def INT_MAX_def upt_rec Let_def

section \<open>Address decoding\<close>

lemma floorlog2_range:
  assumes "0 < x" "x < 2 ^ 31"
  shows "0 < floorlog 2 x" and "floorlog 2 x \<le> 31"
proof -
  have "floorlog 2 x \<noteq> 0" using assms(1) floorlog_eq_zero_iff [of 2 x] by auto
  then show "0 < floorlog 2 x" by blast
  show "floorlog 2 x \<le> 31" using assms(2) floorlog_leI [of x 2 31] by auto
qed

lemma INT_LOG2_floorlog: "0 < x \<Longrightarrow> x < 2 ^ 31 \<Longrightarrow> INT_LOG2 x = floorlog 2 x - 1"
  using floorlog2_range [of x] by (simp add: INT_LOG2_def builtin_clz_def)

lemma INT_LOG2_bounds:
  assumes "0 < x" "x < 2 ^ 31"
  shows "2 ^ INT_LOG2 x \<le> x" and "INT_LOG2 x < 31"
proof -
  have e: "INT_LOG2 x = floorlog 2 x - 1" using assms by (rule INT_LOG2_floorlog)
  show "2 ^ INT_LOG2 x \<le> x" using floorlog_bounds [of x 2] assms(1) by (simp add: e)
  show "INT_LOG2 x < 31" using floorlog2_range [OF assms] by (simp add: e)
qed

lemma mask32_ucast: "n < 32 \<Longrightarrow> (ucast (push_bit n (1 :: 32 word) - 1) :: 64 word) = mask n"
proof -
  assume n: "n < 32"
  have "push_bit n (1 :: 32 word) - 1 = mask n" by (simp add: mask_eq_exp_minus_1 push_bit_eq_mult)
  moreover have "(ucast (mask n :: 32 word) :: 64 word) = mask n"
    using n by (simp add: ucast_mask_eq)
  ultimately show ?thesis by simp
qed

lemma unat_and_mask_less: "unat ((x :: 64 word) AND mask n) < 2 ^ n"
proof -
  have "uint (x AND mask n) < 2 ^ n" by (rule and_mask_lt_2p)
  then have "int (unat (x AND mask n)) < int (2 ^ n)" by simp
  then show ?thesis by (simp only: of_nat_less_iff)
qed

lemma setIndex_less:
  assumes "positive_geometry g"
  shows "setIndex g addr < S g"
proof -
  have s: "0 < S g" "S g < 2 ^ 31" using assms by (simp_all add: positive_geometry_def)
  have n: "INT_LOG2 (S g) < 32" using INT_LOG2_bounds(2) [OF s] by simp
  have "setIndex g addr < 2 ^ INT_LOG2 (S g)"
    by (simp only: setIndex_def set_mask_def mask32_ucast [OF n] unat_and_mask_less)
  also have "\<dots> \<le> S g" by (rule INT_LOG2_bounds(1) [OF s])
  finally show ?thesis .
qed

section \<open>The two scans of a set\<close>

lemma lookup_loop_hit:
  "lookup_loop cs t is av fes = (av', fes', Some h) \<Longrightarrow>
     h \<in> set is \<and> tag (cs ! h) = t \<and> Valid (cs ! h)"
  by (induction "is" arbitrary: av fes) (auto simp: Let_def split: if_splits)

lemma lookup_loop_first:
  "lookup_loop cs t is av fes = (av', fes', Some h) \<Longrightarrow> sorted_wrt (<) is \<Longrightarrow>
     \<forall>j \<in> set is. j < h \<longrightarrow> \<not> (tag (cs ! j) = t \<and> Valid (cs ! j))"
proof (induction "is" arbitrary: av fes)
  case Nil
  then show ?case by simp
next
  case (Cons i "is")
  show ?case
  proof (cases "tag (cs ! i) = t \<and> Valid (cs ! i)")
    case True
    with Cons.prems(1) have "h = i" by (simp add: Let_def)
    with Cons.prems(2) show ?thesis by auto
  next
    case False
    with Cons.prems(1) obtain av1 fes1 where
      "lookup_loop cs t is av1 fes1 = (av', fes', Some h)" by (auto simp: Let_def split: if_splits)
    moreover have "sorted_wrt (<) is" using Cons.prems(2) by simp
    ultimately have "\<forall>j \<in> set is. j < h \<longrightarrow> \<not> (tag (cs ! j) = t \<and> Valid (cs ! j))"
      by (rule Cons.IH)
    with False show ?thesis by auto
  qed
qed

lemma lookup_loop_miss:
  "lookup_loop cs t is av fes = (av', fes', None) \<Longrightarrow>
     (\<forall>i \<in> set is. \<not> (tag (cs ! i) = t \<and> Valid (cs ! i))) \<and>
     (av' \<longleftrightarrow> av \<and> (\<forall>i \<in> set is. Valid (cs ! i)))"
  by (induction "is" arbitrary: av fes) (auto simp: Let_def split: if_splits)

lemma lookup_loop_slot:
  "lookup_loop cs t is av fes = (av', fes', None) \<Longrightarrow>
     (\<not> av \<longrightarrow> fes' = fes) \<and> (av \<and> \<not> av' \<longrightarrow> fes' \<in> set is \<and> \<not> Valid (cs ! fes'))"
  by (induction "is" arbitrary: av fes) (auto simp: Let_def split: if_splits)

lemma lookup_loop_slot_first:
  "lookup_loop cs t is True fes = (False, fes', None) \<Longrightarrow> sorted_wrt (<) is \<Longrightarrow>
     \<forall>j \<in> set is. j < fes' \<longrightarrow> Valid (cs ! j)"
proof (induction "is" arbitrary: fes)
  case Nil
  then show ?case by simp
next
  case (Cons i "is")
  show ?case
  proof (cases "Valid (cs ! i)")
    case True
    with Cons.prems(1) have "lookup_loop cs t is True fes = (False, fes', None)"
      by (auto simp: Let_def split: if_splits)
    moreover have "sorted_wrt (<) is" using Cons.prems(2) by simp
    ultimately have "\<forall>j \<in> set is. j < fes' \<longrightarrow> Valid (cs ! j)" by (rule Cons.IH)
    with True show ?thesis by auto
  next
    case False
    with Cons.prems(1) have "lookup_loop cs t is False i = (False, fes', None)"
      by (auto simp: Let_def split: if_splits)
    then have "fes' = i" using lookup_loop_slot by blast
    with Cons.prems(2) show ?thesis by auto
  qed
qed

lemma lookup_loop_find:
  assumes "i \<in> set is" "tag (cs ! i) = t" "Valid (cs ! i)"
  shows "\<exists>av' fes' h. lookup_loop cs t is av fes = (av', fes', Some h)"
proof (cases "lookup_loop cs t is av fes")
  case (fields av' fes' r)
  show ?thesis
  proof (cases r)
    case None
    with fields assms lookup_loop_miss [of cs t "is" av fes av' fes'] show ?thesis by blast
  next
    case (Some h)
    with fields show ?thesis by blast
  qed
qed

lemma evict_loop_result:
  "evict_loop cs is m v = (m', v') \<Longrightarrow> sorted_wrt (<) is \<Longrightarrow>
     (\<forall>i \<in> set is. m' \<le> trackID (cs ! i)) \<and>
     ((v' = v \<and> m' = m) \<or>
      (\<exists>x \<in> set is. v' = Some x \<and> trackID (cs ! x) = m' \<and> m' < m \<and>
          (\<forall>j \<in> set is. j < x \<longrightarrow> m' < trackID (cs ! j))))"
proof (induction "is" arbitrary: m v)
  case Nil
  then show ?case by simp
next
  case (Cons i "is")
  have srt: "sorted_wrt (<) is" and gt: "\<forall>j \<in> set is. i < j" using Cons.prems(2) by auto
  show ?case
  proof (cases "trackID (cs ! i) < m")
    case True
    with Cons.prems(1) have "evict_loop cs is (trackID (cs ! i)) (Some i) = (m', v')" by simp
    from Cons.IH [OF this srt] True gt show ?thesis by (auto simp: less_le_not_le)
  next
    case False
    with Cons.prems(1) have "evict_loop cs is m v = (m', v')" by simp
    from Cons.IH [OF this srt] False gt show ?thesis by (auto simp: less_le_not_le)
  qed
qed

lemma evict_loop_victim:
  assumes "\<exists>i < k. trackID (cs ! i) < INT_MAX"
  shows "\<exists>x < k. snd (evict_loop cs [0..<k] INT_MAX None) = Some x \<and>
           (\<forall>i < k. trackID (cs ! x) \<le> trackID (cs ! i)) \<and>
           (\<forall>j < x. trackID (cs ! x) < trackID (cs ! j))"
proof -
  obtain m' v' where e: "evict_loop cs [0..<k] INT_MAX None = (m', v')"
    by (cases "evict_loop cs [0..<k] INT_MAX None")
  have "sorted_wrt (<) [0..<k]" by simp
  from evict_loop_result [OF e this]
  have low: "\<forall>i < k. m' \<le> trackID (cs ! i)"
    and alt: "(v' = None \<and> m' = INT_MAX) \<or>
      (\<exists>x < k. v' = Some x \<and> trackID (cs ! x) = m' \<and> (\<forall>j < k. j < x \<longrightarrow> m' < trackID (cs ! j)))"
    by auto
  from assms low have "m' \<noteq> INT_MAX" by force
  with alt obtain x where x: "x < k" "v' = Some x" "trackID (cs ! x) = m'"
    "\<forall>j < k. j < x \<longrightarrow> m' < trackID (cs ! j)" by blast
  have "\<forall>j < x. trackID (cs ! x) < trackID (cs ! j)" using x by auto
  with x low e show ?thesis by auto
qed

section \<open>The three outcomes of an access\<close>

lemma access_data_hit:
  assumes "i < K g" "tag (currCache s ! setIndex g addr ! i) = tagBits g addr"
    "Valid (currCache s ! setIndex g addr ! i)"
  shows "\<exists>h < K g. tag (currCache s ! setIndex g addr ! h) = tagBits g addr \<and>
           Valid (currCache s ! setIndex g addr ! h) \<and>
           (\<forall>j < h. \<not> (tag (currCache s ! setIndex g addr ! j) = tagBits g addr \<and>
                        Valid (currCache s ! setIndex g addr ! j))) \<and>
           access_data g addr s =
             (case incr (hit_count s) of
                Inl e \<Rightarrow> Inl e
              | Inr hc \<Rightarrow>
                  Inr (s\<lparr>currCache :=
                          (if policy g = LRU
                           then write_block (currCache s) (setIndex g addr) h
                                  ((currCache s ! setIndex g addr ! h)\<lparr>trackID := count s\<rparr>)
                           else currCache s),
                        hit_count := hc\<rparr>))"
proof -
  let ?cs = "currCache s ! setIndex g addr" and ?t = "tagBits g addr"
  have "i \<in> set [0..<K g]" using assms(1) by simp
  from lookup_loop_find [OF this assms(2,3)]
  obtain av fes h where l: "lookup_loop ?cs ?t [0..<K g] True 0 = (av, fes, Some h)" by blast
  have h: "h < K g" "tag (?cs ! h) = ?t" "Valid (?cs ! h)"
    using lookup_loop_hit [OF l] by simp_all
  have "sorted_wrt (<) [0..<K g]" by simp
  from lookup_loop_first [OF l this] h(1)
  have f: "\<forall>j < h. \<not> (tag (?cs ! j) = ?t \<and> Valid (?cs ! j))" by auto
  have "access_data g addr s =
             (case incr (hit_count s) of
                Inl e \<Rightarrow> Inl e
              | Inr hc \<Rightarrow>
                  Inr (s\<lparr>currCache :=
                          (if policy g = LRU
                           then write_block (currCache s) (setIndex g addr) h
                                  ((?cs ! h)\<lparr>trackID := count s\<rparr>)
                           else currCache s),
                        hit_count := hc\<rparr>))"
    by (simp add: access_data_def Let_def l)
  with h f show ?thesis by blast
qed

lemma access_data_install:
  assumes "\<forall>i < K g. \<not> (tag (currCache s ! setIndex g addr ! i) = tagBits g addr \<and>
                        Valid (currCache s ! setIndex g addr ! i))"
    and "\<exists>i < K g. \<not> Valid (currCache s ! setIndex g addr ! i)"
  shows "\<exists>f < K g. \<not> Valid (currCache s ! setIndex g addr ! f) \<and>
           (\<forall>j < f. Valid (currCache s ! setIndex g addr ! j)) \<and>
           access_data g addr s =
             (case incr (miss_count s) of
                Inl e \<Rightarrow> Inl e
              | Inr m \<Rightarrow>
                  Inr (s\<lparr>currCache :=
                          write_block (currCache s) (setIndex g addr) f
                            ((currCache s ! setIndex g addr ! f)
                               \<lparr>Valid := True, tag := tagBits g addr, trackID := count s\<rparr>),
                        miss_count := m\<rparr>))"
proof -
  let ?cs = "currCache s ! setIndex g addr" and ?t = "tagBits g addr"
  obtain av fes r where l: "lookup_loop ?cs ?t [0..<K g] True 0 = (av, fes, r)"
    by (cases "lookup_loop ?cs ?t [0..<K g] True 0")
  have r: "r = None"
  proof (cases r)
    case (Some h)
    with l lookup_loop_hit [of ?cs ?t "[0..<K g]" True 0 av fes h] assms(1) show ?thesis by auto
  qed simp
  have av: "\<not> av" using lookup_loop_miss [OF l [unfolded r]] assms(2) by auto
  have fes: "fes < K g" "\<not> Valid (?cs ! fes)"
    using lookup_loop_slot [OF l [unfolded r]] av by auto
  have "sorted_wrt (<) [0..<K g]" by simp
  from lookup_loop_slot_first [OF _ this, of ?cs ?t 0 fes] l r av fes(1)
  have first: "\<forall>j < fes. Valid (?cs ! j)" by auto
  have "access_data g addr s =
             (case incr (miss_count s) of
                Inl e \<Rightarrow> Inl e
              | Inr m \<Rightarrow>
                  Inr (s\<lparr>currCache :=
                          write_block (currCache s) (setIndex g addr) fes
                            ((?cs ! fes)\<lparr>Valid := True, tag := ?t, trackID := count s\<rparr>),
                        miss_count := m\<rparr>))"
    using av by (simp add: access_data_def Let_def l r)
  with fes first show ?thesis by blast
qed

lemma access_data_evict:
  assumes "\<forall>i < K g. tag (currCache s ! setIndex g addr ! i) \<noteq> tagBits g addr"
    and "\<forall>i < K g. Valid (currCache s ! setIndex g addr ! i)"
    and "\<exists>i < K g. trackID (currCache s ! setIndex g addr ! i) < INT_MAX"
  shows "\<exists>v < K g.
           (\<forall>i < K g. trackID (currCache s ! setIndex g addr ! v)
                        \<le> trackID (currCache s ! setIndex g addr ! i)) \<and>
           (\<forall>j < v. trackID (currCache s ! setIndex g addr ! v)
                        < trackID (currCache s ! setIndex g addr ! j)) \<and>
           access_data g addr s =
             (case incr (miss_count s) of
                Inl e \<Rightarrow> Inl e
              | Inr m \<Rightarrow>
                  (case incr (eviction_count s) of
                     Inl e \<Rightarrow> Inl e
                   | Inr ev \<Rightarrow>
                      Inr (s\<lparr>currCache :=
                              write_block (currCache s) (setIndex g addr) v
                                ((currCache s ! setIndex g addr ! v)
                                   \<lparr>Valid := True, tag := tagBits g addr, trackID := count s\<rparr>),
                            miss_count := m, eviction_count := ev\<rparr>)))"
proof -
  let ?cs = "currCache s ! setIndex g addr" and ?t = "tagBits g addr"
  obtain av fes r where l: "lookup_loop ?cs ?t [0..<K g] True 0 = (av, fes, r)"
    by (cases "lookup_loop ?cs ?t [0..<K g] True 0")
  have r: "r = None"
  proof (cases r)
    case (Some h)
    with l lookup_loop_hit [of ?cs ?t "[0..<K g]" True 0 av fes h] assms(1) show ?thesis by auto
  qed simp
  have av: "av" using lookup_loop_miss [OF l [unfolded r]] assms(2) by auto
  from evict_loop_victim [OF assms(3)]
  obtain v where v: "v < K g" "snd (evict_loop ?cs [0..<K g] INT_MAX None) = Some v"
    "\<forall>i < K g. trackID (?cs ! v) \<le> trackID (?cs ! i)"
    "\<forall>j < v. trackID (?cs ! v) < trackID (?cs ! j)" by blast
  have "access_data g addr s =
             (case incr (miss_count s) of
                Inl e \<Rightarrow> Inl e
              | Inr m \<Rightarrow>
                  (case incr (eviction_count s) of
                     Inl e \<Rightarrow> Inl e
                   | Inr ev \<Rightarrow>
                      Inr (s\<lparr>currCache :=
                              write_block (currCache s) (setIndex g addr) v
                                ((?cs ! v)\<lparr>Valid := True, tag := ?t, trackID := count s\<rparr>),
                            miss_count := m, eviction_count := ev\<rparr>)))"
    using av by (simp add: access_data_def Let_def l r v(2))
  with v show ?thesis by blast
qed

section \<open>Replay as a sequence of accesses\<close>

lemma replay_pass_run:
  "replay_pass g msk v is prev s = run_accesses g (pass_accesses g msk v is prev) s"
  by (induction "is" arbitrary: prev s) (auto simp: Let_def split: sum.splits)

lemma run_accesses_append:
  "run_accesses g (xs @ ys) s =
     (case run_accesses g xs s of Inl e \<Rightarrow> Inl e | Inr s1 \<Rightarrow> run_accesses g ys s1)"
  by (induction xs arbitrary: s) (auto split: sum.splits)

lemma replay_line_run: "replay_line g r s = run_accesses g (line_accesses g r) s"
  by (auto simp: replay_line_def line_accesses_def replay_pass_run run_accesses_append
      split: sum.splits)

lemma replay_trace_run: "replay_trace g rs s = run_accesses g (trace_accesses g rs) s"
  by (induction rs arbitrary: s)
     (auto simp: trace_accesses_def replay_line_run run_accesses_append split: sum.splits)

lemma evict_loop_none:
  assumes "\<forall>i < k. \<not> trackID (cs ! i) < INT_MAX"
  shows "snd (evict_loop cs [0..<k] INT_MAX None) = None"
proof -
  obtain m' v' where e: "evict_loop cs [0..<k] INT_MAX None = (m', v')"
    by (cases "evict_loop cs [0..<k] INT_MAX None")
  have "sorted_wrt (<) [0..<k]" by simp
  from evict_loop_result [OF e this] assms have "v' = None" by auto
  with e show ?thesis by simp
qed

lemma access_data_no_victim:
  assumes "\<forall>i < K g. tag (currCache s ! setIndex g addr ! i) \<noteq> tagBits g addr"
    and "\<forall>i < K g. Valid (currCache s ! setIndex g addr ! i)"
    and "\<forall>i < K g. \<not> trackID (currCache s ! setIndex g addr ! i) < INT_MAX"
  shows "access_data g addr s = Inl UninitialisedIndex"
proof -
  let ?cs = "currCache s ! setIndex g addr" and ?t = "tagBits g addr"
  obtain av fes r where l: "lookup_loop ?cs ?t [0..<K g] True 0 = (av, fes, r)"
    by (cases "lookup_loop ?cs ?t [0..<K g] True 0")
  have r: "r = None"
  proof (cases r)
    case (Some h)
    with l lookup_loop_hit [of ?cs ?t "[0..<K g]" True 0 av fes h] assms(1) show ?thesis by auto
  qed simp
  have av: "av" using lookup_loop_miss [OF l [unfolded r]] assms(2) by auto
  show ?thesis using av by (simp add: access_data_def Let_def l r evict_loop_none [OF assms(3)])
qed

lemma incr_Inr: "incr x = Inr y \<longleftrightarrow> x \<noteq> INT_MAX \<and> y = x + 1"
  by (auto simp: incr_def)

lemma incr_less: "x < INT_MAX \<Longrightarrow> incr x = Inr (x + 1)"
  by (simp add: incr_def)

lemma access_data_effect:
  assumes "access_data g addr s = Inr s'"
  shows "(\<exists>h < K g.
            tag (currCache s ! setIndex g addr ! h) = tagBits g addr \<and>
            Valid (currCache s ! setIndex g addr ! h) \<and>
            s' = s\<lparr>currCache :=
                     (if policy g = LRU
                      then write_block (currCache s) (setIndex g addr) h
                             ((currCache s ! setIndex g addr ! h)\<lparr>trackID := count s\<rparr>)
                      else currCache s),
                   hit_count := hit_count s + 1\<rparr>)
       \<or> (\<exists>f < K g.
            (\<forall>i < K g. \<not> (tag (currCache s ! setIndex g addr ! i) = tagBits g addr \<and>
                           Valid (currCache s ! setIndex g addr ! i))) \<and>
            \<not> Valid (currCache s ! setIndex g addr ! f) \<and>
            s' = s\<lparr>currCache :=
                     write_block (currCache s) (setIndex g addr) f
                       ((currCache s ! setIndex g addr ! f)
                          \<lparr>Valid := True, tag := tagBits g addr, trackID := count s\<rparr>),
                   miss_count := miss_count s + 1\<rparr>)
       \<or> (\<exists>v < K g.
            (\<forall>i < K g. tag (currCache s ! setIndex g addr ! i) \<noteq> tagBits g addr) \<and>
            (\<forall>i < K g. Valid (currCache s ! setIndex g addr ! i)) \<and>
            s' = s\<lparr>currCache :=
                     write_block (currCache s) (setIndex g addr) v
                       ((currCache s ! setIndex g addr ! v)
                          \<lparr>Valid := True, tag := tagBits g addr, trackID := count s\<rparr>),
                   miss_count := miss_count s + 1,
                   eviction_count := eviction_count s + 1\<rparr>)"
proof -
  let ?cs = "currCache s ! setIndex g addr" and ?t = "tagBits g addr"
  show ?thesis
  proof (cases "\<exists>i < K g. tag (?cs ! i) = ?t \<and> Valid (?cs ! i)")
    case True
    then obtain i where "i < K g" "tag (?cs ! i) = ?t" "Valid (?cs ! i)" by blast
    from access_data_hit [OF this] assms show ?thesis
      by (auto simp: incr_def split: if_splits)
  next
    case miss: False
    show ?thesis
    proof (cases "\<exists>i < K g. \<not> Valid (?cs ! i)")
      case True
      from miss have "\<forall>i < K g. \<not> (tag (?cs ! i) = ?t \<and> Valid (?cs ! i))" by blast
      from access_data_install [OF this True] assms miss show ?thesis
        by (auto simp: incr_def split: if_splits)
    next
      case False
      then have full: "\<forall>i < K g. Valid (?cs ! i)" by blast
      with miss have m: "\<forall>i < K g. tag (?cs ! i) \<noteq> ?t" by blast
      have "\<exists>i < K g. trackID (?cs ! i) < INT_MAX"
      proof (rule ccontr)
        assume "\<not> ?thesis"
        then have "\<forall>i < K g. \<not> trackID (?cs ! i) < INT_MAX" by blast
        from access_data_no_victim [OF m full this] assms show False by simp
      qed
      from access_data_evict [OF m full this] assms m full show ?thesis
        by (auto simp: incr_def split: if_splits)
    qed
  qed
qed

section \<open>Preservation of the invariants\<close>

lemma write_block_beyond: "\<not> si < length c \<Longrightarrow> write_block c si i b = c"
  by (simp add: write_block_def list_update_beyond)

lemma in_set_write_block:
  assumes "cs \<in> set (write_block c si i b)"
  shows "cs \<in> set c \<or> (si < length c \<and> cs = (c ! si)[i := b])"
proof (cases "si < length c")
  case True
  have "set (c[si := (c ! si)[i := b]]) \<subseteq> insert ((c ! si)[i := b]) (set c)"
    by (rule set_update_subset_insert)
  with assms True show ?thesis by (auto simp: write_block_def)
next
  case False
  with assms show ?thesis by (simp add: write_block_beyond)
qed

lemma wf_cache_write_block: "wf_cache g c \<Longrightarrow> wf_cache g (write_block c si i b)"
proof -
  assume w: "wf_cache g c"
  have "length (write_block c si i b) = S g" using w by (simp add: wf_cache_def write_block_def)
  moreover have "length cs = K g" if "cs \<in> set (write_block c si i b)" for cs
    using in_set_write_block [OF that] w by (auto simp: wf_cache_def)
  ultimately show ?thesis by (simp add: wf_cache_def)
qed

lemma stamps_below_write_block:
  assumes "stamps_below c n" "trackID b < n"
  shows "stamps_below (write_block c si i b) n"
proof -
  have "trackID x < n" if cs: "cs \<in> set (write_block c si i b)" and x: "x \<in> set cs" "Valid x" for cs x
  proof -
    from in_set_write_block [OF cs] show ?thesis
    proof
      assume "cs \<in> set c"
      with assms(1) x show ?thesis by (auto simp: stamps_below_def)
    next
      assume a: "si < length c \<and> cs = (c ! si)[i := b]"
      then have "set cs \<subseteq> insert b (set (c ! si))" by (simp add: set_update_subset_insert)
      with x(1) have "x = b \<or> x \<in> set (c ! si)" by auto
      moreover from a have "c ! si \<in> set c" by simp
      ultimately show ?thesis using assms x(2) by (auto simp: stamps_below_def)
    qed
  qed
  then show ?thesis by (auto simp: stamps_below_def)
qed

lemma stamps_below_mono: "stamps_below c n \<Longrightarrow> n \<le> m \<Longrightarrow> stamps_below c m"
  by (fastforce simp: stamps_below_def)

lemma set_distinct_update:
  assumes "set_distinct cs"
    and "\<forall>j < length cs. j \<noteq> i \<and> Valid (cs ! j) \<longrightarrow> tag (cs ! j) \<noteq> tag b"
  shows "set_distinct (cs[i := b])"
  unfolding set_distinct_def
proof (intro allI impI)
  fix p q
  assume p: "p < length (cs[i := b])" and q: "q < length (cs[i := b])"
    and h: "p \<noteq> q \<and> Valid (cs[i := b] ! p) \<and> Valid (cs[i := b] ! q)"
  show "tag (cs[i := b] ! p) \<noteq> tag (cs[i := b] ! q)"
  proof (cases "p = i")
    case True
    with h have "q \<noteq> i" by auto
    with True p q h assms(2) show ?thesis by (auto simp: nth_list_update)
  next
    case pi: False
    show ?thesis
    proof (cases "q = i")
      case True
      with pi p q h assms(2) show ?thesis by (auto simp: nth_list_update)
    next
      case False
      with pi p q h assms(1) show ?thesis by (auto simp: set_distinct_def)
    qed
  qed
qed

lemma distinct_tags_write_block:
  assumes "distinct_tags c"
    and "si < length c \<longrightarrow>
           (\<forall>j < length (c ! si). j \<noteq> i \<and> Valid (c ! si ! j) \<longrightarrow> tag (c ! si ! j) \<noteq> tag b)"
  shows "distinct_tags (write_block c si i b)"
proof -
  have "set_distinct cs" if cs: "cs \<in> set (write_block c si i b)" for cs
  proof -
    from in_set_write_block [OF cs] show ?thesis
    proof
      assume "cs \<in> set c"
      with assms(1) show ?thesis by (simp add: distinct_tags_def)
    next
      assume a: "si < length c \<and> cs = (c ! si)[i := b]"
      then have "set_distinct (c ! si)" using assms(1) by (simp add: distinct_tags_def)
      from set_distinct_update [OF this] assms(2) a show ?thesis by simp
    qed
  qed
  then show ?thesis by (simp add: distinct_tags_def)
qed

lemma access_data_count: "access_data g addr s = Inr s' \<Longrightarrow> count s' = count s"
  using access_data_effect [of g addr s s'] by auto

lemma access_data_inv:
  assumes inv: "sim_inv g s" and acc: "access_data g addr s = Inr s'"
  shows "wf_cache g (currCache s') \<and> distinct_tags (currCache s') \<and>
         stamps_below (currCache s') (count s + 1) \<and>
         hit_count s' + miss_count s' = count s + 1 \<and> 0 \<le> hit_count s' \<and>
         0 \<le> eviction_count s' \<and> eviction_count s' \<le> miss_count s'"
proof -
  let ?c = "currCache s" and ?si = "setIndex g addr" and ?t = "tagBits g addr"
  let ?cs = "?c ! ?si"
  have wf: "wf_cache g ?c" and dt: "distinct_tags ?c" and sb: "stamps_below ?c (count s + 1)"
    using inv stamps_below_mono [of ?c "count s" "count s + 1"] by (simp_all add: sim_inv_def)
  have cnt: "hit_count s + miss_count s = count s" "0 \<le> hit_count s"
    "0 \<le> eviction_count s" "eviction_count s \<le> miss_count s"
    using inv by (simp_all add: sim_inv_def)
  have len: "length ?cs = K g" and sd: "set_distinct ?cs" if "?si < length ?c"
    using that wf dt by (simp_all add: wf_cache_def distinct_tags_def)
  have new: "wf_cache g (write_block ?c ?si i b) \<and> distinct_tags (write_block ?c ?si i b) \<and>
             stamps_below (write_block ?c ?si i b) (count s + 1)"
    if "trackID b = count s"
      and "?si < length ?c \<longrightarrow> (\<forall>j < K g. j \<noteq> i \<and> Valid (?cs ! j) \<longrightarrow> tag (?cs ! j) \<noteq> tag b)"
    for i b
  proof -
    have "?si < length ?c \<longrightarrow>
           (\<forall>j < length ?cs. j \<noteq> i \<and> Valid (?cs ! j) \<longrightarrow> tag (?cs ! j) \<noteq> tag b)"
      using that(2) len by simp
    from distinct_tags_write_block [OF dt this] wf_cache_write_block [OF wf]
      stamps_below_write_block [OF sb, of b] that(1)
    show ?thesis by simp
  qed
  from access_data_effect [OF acc] show ?thesis
  proof (elim disjE exE conjE)
    fix h
    assume h: "h < K g" "tag (?cs ! h) = ?t" "Valid (?cs ! h)"
      and s': "s' = s\<lparr>currCache :=
                     (if policy g = LRU
                      then write_block ?c ?si h ((?cs ! h)\<lparr>trackID := count s\<rparr>)
                      else ?c),
                   hit_count := hit_count s + 1\<rparr>"
    have "?si < length ?c \<longrightarrow>
            (\<forall>j < K g. j \<noteq> h \<and> Valid (?cs ! j) \<longrightarrow>
               tag (?cs ! j) \<noteq> tag ((?cs ! h)\<lparr>trackID := count s\<rparr>))"
    proof (intro impI allI)
      fix j
      assume si: "?si < length ?c" and j: "j < K g" "j \<noteq> h \<and> Valid (?cs ! j)"
      from sd [OF si] len [OF si] j h have "tag (?cs ! j) \<noteq> tag (?cs ! h)"
        unfolding set_distinct_def by metis
      then show "tag (?cs ! j) \<noteq> tag ((?cs ! h)\<lparr>trackID := count s\<rparr>)" by simp
    qed
    from new [OF _ this] wf dt sb s' cnt show ?thesis by simp
  next
    fix f
    assume miss: "\<forall>i < K g. \<not> (tag (?cs ! i) = ?t \<and> Valid (?cs ! i))"
      and s': "s' = s\<lparr>currCache :=
                     write_block ?c ?si f ((?cs ! f)\<lparr>Valid := True, tag := ?t, trackID := count s\<rparr>),
                   miss_count := miss_count s + 1\<rparr>"
    have "?si < length ?c \<longrightarrow>
            (\<forall>j < K g. j \<noteq> f \<and> Valid (?cs ! j) \<longrightarrow>
               tag (?cs ! j) \<noteq> tag ((?cs ! f)\<lparr>Valid := True, tag := ?t, trackID := count s\<rparr>))"
      using miss by auto
    from new [OF _ this] s' cnt show ?thesis by simp
  next
    fix v
    assume miss: "\<forall>i < K g. tag (?cs ! i) \<noteq> ?t"
      and s': "s' = s\<lparr>currCache :=
                     write_block ?c ?si v ((?cs ! v)\<lparr>Valid := True, tag := ?t, trackID := count s\<rparr>),
                   miss_count := miss_count s + 1,
                   eviction_count := eviction_count s + 1\<rparr>"
    have "?si < length ?c \<longrightarrow>
            (\<forall>j < K g. j \<noteq> v \<and> Valid (?cs ! j) \<longrightarrow>
               tag (?cs ! j) \<noteq> tag ((?cs ! v)\<lparr>Valid := True, tag := ?t, trackID := count s\<rparr>))"
      using miss by auto
    from new [OF _ this] s' cnt show ?thesis by simp
  qed
qed

lemma sim_inv_step:
  assumes "sim_inv g s" "access_data g addr s = Inr s1" "incr (count s1) = Inr c"
  shows "sim_inv g (s1\<lparr>count := c\<rparr>)"
proof -
  have c: "count s1 = count s" using assms(2) by (rule access_data_count)
  from assms(3) have "count s1 \<noteq> INT_MAX" "c = count s1 + 1" by (simp_all add: incr_Inr)
  moreover have "count s \<le> INT_MAX" using assms(1) by (simp add: sim_inv_def)
  ultimately have "c = count s + 1" "c \<le> INT_MAX" using c by simp_all
  with access_data_inv [OF assms(1,2)] show ?thesis by (simp add: sim_inv_def)
qed

lemma access_data_defined:
  assumes inv: "sim_inv g s" and g: "positive_geometry g" and c: "count s < INT_MAX"
  shows "\<exists>s'. access_data g addr s = Inr s'"
proof -
  let ?cs = "currCache s ! setIndex g addr" and ?t = "tagBits g addr"
  have h: "hit_count s < INT_MAX" and m: "miss_count s < INT_MAX"
    and e: "eviction_count s < INT_MAX"
    using inv c by (simp_all add: sim_inv_def)
  show ?thesis
  proof (cases "\<exists>i < K g. tag (?cs ! i) = ?t \<and> Valid (?cs ! i)")
    case True
    then obtain i where "i < K g" "tag (?cs ! i) = ?t" "Valid (?cs ! i)" by blast
    from access_data_hit [OF this] h show ?thesis by (auto simp: incr_less)
  next
    case miss: False
    show ?thesis
    proof (cases "\<exists>i < K g. \<not> Valid (?cs ! i)")
      case True
      from miss have "\<forall>i < K g. \<not> (tag (?cs ! i) = ?t \<and> Valid (?cs ! i))" by blast
      from access_data_install [OF this True] m show ?thesis by (auto simp: incr_less)
    next
      case False
      then have full: "\<forall>i < K g. Valid (?cs ! i)" by blast
      with miss have ms: "\<forall>i < K g. tag (?cs ! i) \<noteq> ?t" by blast
      have si: "setIndex g addr < length (currCache s)"
        using setIndex_less [OF g] inv by (simp add: sim_inv_def wf_cache_def)
      then have cs: "?cs \<in> set (currCache s)" by simp
      then have len: "length ?cs = K g" using inv by (simp add: sim_inv_def wf_cache_def)
      have k: "0 < K g" using g by (simp add: positive_geometry_def)
      with len have "?cs ! 0 \<in> set ?cs" by simp
      with cs full k inv have "trackID (?cs ! 0) < count s"
        by (auto simp: sim_inv_def stamps_below_def)
      with c k have "\<exists>i < K g. trackID (?cs ! i) < INT_MAX" by force
      from access_data_evict [OF ms full this] m e show ?thesis by (auto simp: incr_less)
    qed
  qed
qed

lemma sim_inv_initial: "sim_inv g (initial_state g heap)"
  by (auto simp: sim_inv_def initial_state_def allocate_cache_def wf_cache_def distinct_tags_def
      set_distinct_def stamps_below_def INT_MAX_def)

lemma sim_inv_run:
  "sim_inv g s \<Longrightarrow> run_accesses g as s = Inr s' \<Longrightarrow> sim_inv g s'"
proof (induction as arbitrary: s)
  case Nil
  then show ?case by simp
next
  case (Cons a as)
  from Cons.prems(2) obtain s1 c where
    a: "access_data g a s = Inr s1" and c: "incr (count s1) = Inr c"
    and r: "run_accesses g as (s1\<lparr>count := c\<rparr>) = Inr s'"
    by (auto split: sum.splits)
  from sim_inv_step [OF Cons.prems(1) a c] r show ?case by (rule Cons.IH)
qed

lemma run_accesses_defined:
  assumes "positive_geometry g"
  shows "sim_inv g s \<Longrightarrow> count s + int (length as) \<le> INT_MAX \<Longrightarrow>
         \<exists>s'. run_accesses g as s = Inr s'"
proof (induction as arbitrary: s)
  case Nil
  then show ?case by simp
next
  case (Cons a as)
  from Cons.prems(2) have lt: "count s < INT_MAX" by simp
  from access_data_defined [OF Cons.prems(1) assms lt]
  obtain s1 where a: "access_data g a s = Inr s1" by blast
  have c1: "count s1 = count s" using a by (rule access_data_count)
  with lt have i: "incr (count s1) = Inr (count s + 1)" by (simp add: incr_less)
  have "sim_inv g (s1\<lparr>count := count s + 1\<rparr>)" by (rule sim_inv_step [OF Cons.prems(1) a i])
  moreover have "count (s1\<lparr>count := count s + 1\<rparr>) + int (length as) \<le> INT_MAX"
    using Cons.prems(2) by simp
  ultimately obtain s' where "run_accesses g as (s1\<lparr>count := count s + 1\<rparr>) = Inr s'"
    using Cons.IH by blast
  with a i show ?case by simp
qed

section \<open>Reading the cache after a write\<close>

lemma write_block_nth:
  "si < length c \<Longrightarrow> i < length (c ! si) \<Longrightarrow> write_block c si i b ! si ! i = b"
  by (simp add: write_block_def)

lemma write_block_nth_other:
  "si' \<noteq> si \<or> i' \<noteq> i \<Longrightarrow> write_block c si i b ! si' ! i' = c ! si' ! i'"
  by (cases "si < length c"; cases "si' = si") (auto simp: write_block_def list_update_beyond)

lemma write_block_changed:
  assumes "write_block c si i b ! si' ! i' \<noteq> c ! si' ! i'"
  shows "write_block c si i b ! si' ! i' = b"
proof -
  have same: "si' = si" "i' = i" using assms write_block_nth_other [of si' si i' i c b] by auto
  have si: "si < length c"
  proof (rule ccontr)
    assume "\<not> si < length c"
    then have "write_block c si i b = c" by (rule write_block_beyond)
    with assms show False by simp
  qed
  have "i < length (c ! si)"
  proof (rule ccontr)
    assume "\<not> i < length (c ! si)"
    then have "write_block c si i b = c" by (simp add: write_block_def list_update_beyond)
    with assms show False by simp
  qed
  with si same show ?thesis by (simp add: write_block_nth)
qed

lemma Block_overwrite:
  "b\<lparr>Valid := v, tag := t, trackID := n\<rparr> = \<lparr>Valid = v, tag = t, trackID = n\<rparr>"
  by (cases b) simp

section \<open>Consequences for single accesses and runs\<close>

lemma access_data_present:
  assumes wf: "wf_cache g (currCache s)" and g: "positive_geometry g"
    and acc: "access_data g a s = Inr s1"
  shows "\<exists>i < K g. Valid (currCache s1 ! setIndex g a ! i) \<and>
                    tag (currCache s1 ! setIndex g a ! i) = tagBits g a"
proof -
  let ?c = "currCache s" and ?si = "setIndex g a" and ?t = "tagBits g a"
  let ?cs = "?c ! ?si"
  have si: "?si < length ?c" using setIndex_less [OF g] wf by (simp add: wf_cache_def)
  then have len: "length ?cs = K g" using wf by (simp add: wf_cache_def)
  have wr: "write_block ?c ?si i b ! ?si ! i = b" if "i < K g" for i b
    using that si len by (simp add: write_block_nth)
  from access_data_effect [OF acc] show ?thesis
  proof (elim disjE exE conjE)
    fix h
    assume h: "h < K g" "tag (?cs ! h) = ?t" "Valid (?cs ! h)"
      and s1: "s1 = s\<lparr>currCache :=
                     (if policy g = LRU
                      then write_block ?c ?si h ((?cs ! h)\<lparr>trackID := count s\<rparr>)
                      else ?c),
                   hit_count := hit_count s + 1\<rparr>"
    show ?thesis
    proof (cases "policy g = LRU")
      case True
      with s1 wr [OF h(1)] h show ?thesis by (intro exI [of _ h]) simp
    next
      case False
      with s1 h show ?thesis by (intro exI [of _ h]) simp
    qed
  next
    fix f
    assume f: "f < K g"
      and s1: "s1 = s\<lparr>currCache :=
                     write_block ?c ?si f ((?cs ! f)\<lparr>Valid := True, tag := ?t, trackID := count s\<rparr>),
                   miss_count := miss_count s + 1\<rparr>"
    with wr [OF f] show ?thesis by (intro exI [of _ f]) simp
  next
    fix v
    assume v: "v < K g"
      and s1: "s1 = s\<lparr>currCache :=
                     write_block ?c ?si v ((?cs ! v)\<lparr>Valid := True, tag := ?t, trackID := count s\<rparr>),
                   miss_count := miss_count s + 1,
                   eviction_count := eviction_count s + 1\<rparr>"
    with wr [OF v] show ?thesis by (intro exI [of _ v]) simp
  qed
qed

lemma access_data_stamp:
  assumes "access_data g a s = Inr s1"
    and "currCache s1 ! si ! i \<noteq> currCache s ! si ! i"
  shows "trackID (currCache s1 ! si ! i) = count s"
  using access_data_effect [OF assms(1)] assms(2)
  by (elim disjE exE conjE) (auto dest!: write_block_changed split: if_splits)

lemma run_accesses_count:
  "run_accesses g as s = Inr s' \<Longrightarrow> count s' = count s + int (length as)"
proof (induction as arbitrary: s)
  case Nil
  then show ?case by simp
next
  case (Cons a as)
  from Cons.prems obtain s1 c where
    a: "access_data g a s = Inr s1" and c: "incr (count s1) = Inr c"
    and r: "run_accesses g as (s1\<lparr>count := c\<rparr>) = Inr s'"
    by (auto split: sum.splits)
  from a c have "c = count s + 1" by (simp add: incr_Inr access_data_count)
  with Cons.IH [OF r] show ?case by simp
qed

lemma pass_accesses_one_line:
  assumes "\<forall>i \<in> set is. drop_bit (INT_LOG2 (B g)) (v + of_nat i) = l"
  shows "pass_accesses g msk v is prev =
           (if is = [] \<or> prev = uint (l AND msk) then [] else [v + of_nat (hd is)])"
  using assms by (induction "is" arbitrary: prev) (auto simp: Let_def)

lemma pass_accesses_first:
  assumes "0 < n"
    and "\<forall>i < n. drop_bit (INT_LOG2 (B g)) (v + of_nat i) = drop_bit (INT_LOG2 (B g)) v"
  shows "pass_accesses g msk v [0..<n] (- 1) = [v]"
proof -
  have "\<forall>i \<in> set [0..<n]. drop_bit (INT_LOG2 (B g)) (v + of_nat i) = drop_bit (INT_LOG2 (B g)) v"
    using assms(2) by simp
  from pass_accesses_one_line [OF this, of msk "- 1"]
  have "pass_accesses g msk v [0..<n] (- 1) =
          (if [0..<n] = [] \<or> - 1 = uint (drop_bit (INT_LOG2 (B g)) v AND msk) then []
           else [v + of_nat (hd [0..<n])])" .
  moreover have "[0..<n] \<noteq> []" "hd [0..<n] = 0" using assms(1) by (simp_all add: hd_upt)
  moreover have "- 1 \<noteq> uint (drop_bit (INT_LOG2 (B g)) v AND msk)"
    using uint_ge_0 [of "drop_bit (INT_LOG2 (B g)) v AND msk"] by linarith
  ultimately show ?thesis by simp
qed

text \<open>
  No undefined behaviour below \<open>2\<^sup>3\<^sup>1\<close> accesses: a trace whose accesses number at most
  \<^verbatim>\<open>INT_MAX\<close> is replayed to the end from the initial state.
\<close>

lemma replay_trace_defined:
  assumes "positive_geometry g" "int (length (trace_accesses g trace)) \<le> INT_MAX"
  shows "\<exists>s. replay_trace g trace (initial_state g heap) = Inr s"
proof -
  have "count (initial_state g heap) + int (length (trace_accesses g trace)) \<le> INT_MAX"
    using assms(2) by (simp add: initial_state_def)
  from run_accesses_defined [OF assms(1) sim_inv_initial this]
  show ?thesis by (simp add: replay_trace_run)
qed

text \<open>
  A set that a run has filled completely holds a stamp below \<^verbatim>\<open>INT_MAX\<close>, so the
  victim scan of \<^verbatim>\<open>access_data\<close> finds a line there.
\<close>

lemma reached_full_set_stamp:
  assumes run: "run_accesses g as (initial_state g heap) = Inr s"
    and g: "positive_geometry g"
    and full: "\<forall>i < K g. Valid (currCache s ! setIndex g addr ! i)"
  shows "wf_cache g (currCache s) \<and> eviction_count s \<le> miss_count s \<and>
         (\<exists>i < K g. trackID (currCache s ! setIndex g addr ! i) < INT_MAX)"
proof -
  let ?c = "currCache s" and ?si = "setIndex g addr"
  let ?cs = "?c ! ?si"
  have inv: "sim_inv g s" using sim_inv_initial run by (rule sim_inv_run)
  then have wf: "wf_cache g ?c" by (simp add: sim_inv_def)
  have si: "?si < length ?c" using setIndex_less [OF g] wf by (simp add: wf_cache_def)
  then have cs: "?cs \<in> set ?c" by simp
  then have len: "length ?cs = K g" using wf by (simp add: wf_cache_def)
  have k: "0 < K g" using g by (simp add: positive_geometry_def)
  with len have "?cs ! 0 \<in> set ?cs" by simp
  with cs full k inv have "trackID (?cs ! 0) < count s"
    by (auto simp: sim_inv_def stamps_below_def)
  moreover have "count s \<le> INT_MAX" using inv by (simp add: sim_inv_def)
  ultimately have "\<exists>i < K g. trackID (?cs ! i) < INT_MAX" using k by force
  with wf inv show ?thesis by (simp add: sim_inv_def)
qed

lemma run_defined_initial:
  assumes "positive_geometry g" "int (length as) \<le> INT_MAX"
  shows "\<exists>s. run_accesses g as (initial_state g heap) = Inr s \<and> sim_inv g s \<and>
             count s = int (length as)"
proof -
  have "count (initial_state g heap) + int (length as) \<le> INT_MAX"
    using assms(2) by (simp add: initial_state_def)
  from run_accesses_defined [OF assms(1) sim_inv_initial this]
  obtain s where s: "run_accesses g as (initial_state g heap) = Inr s" by blast
  have "sim_inv g s" using sim_inv_initial s by (rule sim_inv_run)
  moreover have "count s = int (length as)"
    using run_accesses_count [OF s] by (simp add: initial_state_def)
  ultimately show ?thesis using s by blast
qed

lemma run_accesses_snoc:
  assumes "run_accesses g xs s = Inr s1" "access_data g a s1 = Inr t"
    "incr (count t) = Inr c"
  shows "run_accesses g (xs @ [a]) s = Inr (t\<lparr>count := c\<rparr>)"
  using assms by (simp add: run_accesses_append)

section \<open>Concrete runs\<close>

lemmas decode_simps =
  setIndex_def tagBits_def set_mask_def INT_LOG2_Suc_0 INT_LOG2_2 INT_LOG2_16

lemma positive_examples:
  "positive_geometry \<lparr>S = 1, K = 2, B = 16, policy = FIFO\<rparr>"
  "positive_geometry \<lparr>S = 1, K = 2, B = 16, policy = LRU\<rparr>"
  "positive_geometry \<lparr>S = 2, K = 1, B = 16, policy = LRU\<rparr>"
  by (simp_all add: positive_geometry_def)

lemma less_two: "(\<forall>i < 2. P i) \<longleftrightarrow> P (0::nat) \<and> P 1"
  by (auto simp: less_2_cases_iff)

lemma ex_less_two: "(\<exists>i < 2. P i) \<longleftrightarrow> P (0::nat) \<or> P 1"
  by (auto simp: less_2_cases_iff)

lemma less_three: "(\<forall>i < 3. P i) \<longleftrightarrow> P (0::nat) \<and> P 1 \<and> P 2"
proof -
  have "i < 3 \<longleftrightarrow> i = 0 \<or> i = 1 \<or> i = 2" for i :: nat by auto
  then show ?thesis by auto
qed

lemma less_four: "(\<forall>i < 4. P i) \<longleftrightarrow> P (0::nat) \<and> P 1 \<and> P 2 \<and> P 3"
proof -
  have "i < 4 \<longleftrightarrow> i = 0 \<or> i = 1 \<or> i = 2 \<or> i = 3" for i :: nat by auto
  then show ?thesis by auto
qed

lemma run_two_fills:
  "run_accesses \<lparr>S = 1, K = 2, B = 16, policy = FIFO\<rparr> [0x00, 0x10]
     (initial_state \<lparr>S = 1, K = 2, B = 16, policy = FIFO\<rparr> zero_heap)
   = Inr \<lparr>currCache = [[\<lparr>Valid = True, tag = 0, trackID = 0\<rparr>,
                          \<lparr>Valid = True, tag = 1, trackID = 1\<rparr>]],
          miss_count = 2, hit_count = 0, eviction_count = 0, count = 2\<rparr>"
  by (simp add: run_simps zero_heap_def)

lemma wf_example:
  "wf_cache \<lparr>S = 1, K = 2, B = 16, policy = LRU\<rparr>
     [[\<lparr>Valid = True, tag = 0, trackID = 0\<rparr>, \<lparr>Valid = True, tag = 1, trackID = 1\<rparr>]]"
  by (simp add: wf_cache_def)

lemma first_access_fills:
  "access_data \<lparr>S = 1, K = 2, B = 16, policy = FIFO\<rparr> 0x00
     (initial_state \<lparr>S = 1, K = 2, B = 16, policy = FIFO\<rparr> zero_heap)
   = Inr \<lparr>currCache = [[\<lparr>Valid = True, tag = 0, trackID = 0\<rparr>,
                          \<lparr>Valid = False, tag = 0, trackID = 0\<rparr>]],
          miss_count = 1, hit_count = 0, eviction_count = 0, count = 0\<rparr>"
  by (simp add: run_simps zero_heap_def)

lemma second_access_fills:
  "access_data \<lparr>S = 1, K = 2, B = 16, policy = FIFO\<rparr> 0x10
     (\<lparr>currCache = [[\<lparr>Valid = True, tag = 0, trackID = 0\<rparr>,
                      \<lparr>Valid = False, tag = 0, trackID = 0\<rparr>]],
       miss_count = 1, hit_count = 0, eviction_count = 0, count = 0\<rparr>\<lparr>count := 1\<rparr>)
   = Inr \<lparr>currCache = [[\<lparr>Valid = True, tag = 0, trackID = 0\<rparr>,
                          \<lparr>Valid = True, tag = 1, trackID = 1\<rparr>]],
          miss_count = 2, hit_count = 0, eviction_count = 0, count = 1\<rparr>"
  by (simp add: run_simps)

lemma wf_tie_example:
  "wf_cache \<lparr>S = 1, K = 3, B = 16, policy = LRU\<rparr>
     [[\<lparr>Valid = True, tag = 0, trackID = 7\<rparr>, \<lparr>Valid = True, tag = 1, trackID = 5\<rparr>,
       \<lparr>Valid = True, tag = 2, trackID = 5\<rparr>]]"
  by (simp add: wf_cache_def)

section \<open>The claims\<close>

subsection \<open>C1: one access per cache line touched\<close>

text \<open>
  C1 says that a trace line of positive length makes the replayer call \<^verbatim>\<open>access_data\<close>
  once for every distinct cache line that its bytes touch. The code does not do that
  when the mask of a pass is zero. With one-byte lines (\<^verbatim>\<open>-B 1\<close>) the bytes 0 and 1 of
  \<^verbatim>\<open>L 0,2\<close> lie in two lines, yet the first pass, whose mask is built from
  \<^verbatim>\<open>INT_LOG2(B)\<close>, calls \<^verbatim>\<open>access_data\<close> once. With a single set (\<^verbatim>\<open>-S 1\<close>) the line
  \<^verbatim>\<open>M c,8\<close> touches two 16-byte lines; its first pass makes two calls, its second pass,
  whose mask is built from \<^verbatim>\<open>INT_LOG2(S)\<close>, only one.
\<close>

theorem zero_mask_coalesces_lines:
  "lines_touched \<lparr>S = 2, K = 1, B = 1, policy = LRU\<rparr>
     \<lparr>operation = CHR ''L'', address = 0x0, len = 2\<rparr> = [0, 1]
   \<and> line_accesses \<lparr>S = 2, K = 1, B = 1, policy = LRU\<rparr>
     \<lparr>operation = CHR ''L'', address = 0x0, len = 2\<rparr> = [0]
   \<and> replay_trace \<lparr>S = 2, K = 1, B = 1, policy = LRU\<rparr>
     [\<lparr>operation = CHR ''L'', address = 0x0, len = 2\<rparr>]
     (initial_state \<lparr>S = 2, K = 1, B = 1, policy = LRU\<rparr> zero_heap)
   = Inr \<lparr>currCache = [[\<lparr>Valid = True, tag = 0, trackID = 0\<rparr>],
                         [\<lparr>Valid = False, tag = 0, trackID = 0\<rparr>]],
          miss_count = 1, hit_count = 0, eviction_count = 0, count = 1\<rparr>
   \<and> lines_touched \<lparr>S = 1, K = 2, B = 16, policy = LRU\<rparr>
     \<lparr>operation = CHR ''M'', address = 0xc, len = 8\<rparr> = [0, 1]
   \<and> line_accesses \<lparr>S = 1, K = 2, B = 16, policy = LRU\<rparr>
     \<lparr>operation = CHR ''M'', address = 0xc, len = 8\<rparr> = [0xc, 0x10, 0xc]
   \<and> replay_trace \<lparr>S = 1, K = 2, B = 16, policy = LRU\<rparr>
     [\<lparr>operation = CHR ''M'', address = 0xc, len = 8\<rparr>]
     (initial_state \<lparr>S = 1, K = 2, B = 16, policy = LRU\<rparr> zero_heap)
   = Inr \<lparr>currCache = [[\<lparr>Valid = True, tag = 0, trackID = 2\<rparr>,
                          \<lparr>Valid = True, tag = 1, trackID = 1\<rparr>]],
          miss_count = 2, hit_count = 1, eviction_count = 0, count = 3\<rparr>"
  by (simp add: lines_touched_def line_accesses_def run_simps zero_heap_def)

subsection \<open>C2: the FIFO scenario\<close>

text \<open>
  C2 as stated expects that with two lines per set and policy FIFO the accesses A, B,
  A, C evict B. The program evicts A: the hit on A leaves its stamp alone, so A, filled
  first, has the smallest stamp. After the run the line of B (address \<open>0x10\<close>) is
  cached and the line of A (address \<open>0x00\<close>) is not.
\<close>

theorem fifo_scenario_counterexample:
  "replay_trace \<lparr>S = 1, K = 2, B = 16, policy = FIFO\<rparr>
     [\<lparr>operation = CHR ''L'', address = 0x00, len = 1\<rparr>,
      \<lparr>operation = CHR ''L'', address = 0x10, len = 1\<rparr>,
      \<lparr>operation = CHR ''L'', address = 0x00, len = 1\<rparr>,
      \<lparr>operation = CHR ''L'', address = 0x20, len = 1\<rparr>]
     (initial_state \<lparr>S = 1, K = 2, B = 16, policy = FIFO\<rparr> zero_heap)
   = Inr \<lparr>currCache = [[\<lparr>Valid = True, tag = 2, trackID = 3\<rparr>,
                          \<lparr>Valid = True, tag = 1, trackID = 1\<rparr>]],
          miss_count = 3, hit_count = 1, eviction_count = 1, count = 4\<rparr>
   \<and> cached \<lparr>S = 1, K = 2, B = 16, policy = FIFO\<rparr>
       \<lparr>currCache = [[\<lparr>Valid = True, tag = 2, trackID = 3\<rparr>,
                       \<lparr>Valid = True, tag = 1, trackID = 1\<rparr>]],
        miss_count = 3, hit_count = 1, eviction_count = 1, count = 4\<rparr> 0x10
   \<and> \<not> cached \<lparr>S = 1, K = 2, B = 16, policy = FIFO\<rparr>
       \<lparr>currCache = [[\<lparr>Valid = True, tag = 2, trackID = 3\<rparr>,
                       \<lparr>Valid = True, tag = 1, trackID = 1\<rparr>]],
        miss_count = 3, hit_count = 1, eviction_count = 1, count = 4\<rparr> 0x00"
  by (simp add: cached_def run_simps zero_heap_def ex_less_two)

text \<open>
  C2, amended. With two lines per set and policy FIFO, starting from a set with both
  lines invalid: for addresses \<open>a\<close>, \<open>b\<close>, \<open>c\<close> of the same set with three different
  tags, the accesses \<open>a\<close>, \<open>b\<close>, \<open>a\<close>, \<open>c\<close> are two fills, a hit and a miss that evicts
  the line holding \<open>a\<close>: line 0 then holds the tag of \<open>c\<close>, line 1 still holds the tag of
  \<open>b\<close> with the stamp of its fill, so \<open>b\<close> and \<open>c\<close> are cached and \<open>a\<close> is not. The bounds keep the four increments of each counter
  below \<^verbatim>\<open>INT_MAX\<close>.
\<close>

theorem fifo_evicts_first_inserted:
  assumes g: "positive_geometry g" "K g = 2" "policy g = FIFO"
    and wf: "wf_cache g (currCache s)"
    and same: "setIndex g b = setIndex g a" "setIndex g c = setIndex g a"
    and tags: "tagBits g a \<noteq> tagBits g b" "tagBits g a \<noteq> tagBits g c"
      "tagBits g b \<noteq> tagBits g c"
    and empty: "\<not> Valid (currCache s ! setIndex g a ! 0)"
      "\<not> Valid (currCache s ! setIndex g a ! 1)"
    and bounds: "count s + 4 \<le> INT_MAX" "miss_count s + 3 \<le> INT_MAX"
      "hit_count s < INT_MAX" "eviction_count s < INT_MAX"
  shows "\<exists>s'. run_accesses g [a, b, a, c] s = Inr s' \<and>
           currCache s' ! setIndex g a =
             [\<lparr>Valid = True, tag = tagBits g c, trackID = count s + 3\<rparr>,
              \<lparr>Valid = True, tag = tagBits g b, trackID = count s + 1\<rparr>] \<and>
           \<not> cached g s' a \<and> cached g s' b \<and> cached g s' c \<and>
           hit_count s' = hit_count s + 1 \<and> miss_count s' = miss_count s + 3 \<and>
           eviction_count s' = eviction_count s + 1 \<and> count s' = count s + 4"
proof -
  define si where "si = setIndex g a"
  define c0 where "c0 = currCache s"
  have si: "si < length c0"
    using setIndex_less [OF g(1), of a] wf by (simp add: wf_cache_def si_def c0_def)
  then have "length (c0 ! si) = 2" using wf g(2) by (simp add: wf_cache_def c0_def)
  then obtain x y where xy: "c0 ! si = [x, y]"
    by (metis (no_types, opaque_lifting) One_nat_def Suc_1 length_0_conv length_Suc_conv)
  have inval: "\<not> Valid x" "\<not> Valid y" using empty xy by (simp_all add: si_def c0_def)
  have ix: "setIndex g a = si" "setIndex g b = si" "setIndex g c = si"
    using same by (simp_all add: si_def)
  have k: "[0..<K g] = [0, 1]" using g(2) by (simp add: upt_rec)
  have b: "count s \<noteq> INT_MAX" "count s + 1 \<noteq> INT_MAX" "count s + 2 \<noteq> INT_MAX"
    "count s + 3 \<noteq> INT_MAX" "miss_count s \<noteq> INT_MAX" "miss_count s + 1 \<noteq> INT_MAX"
    "miss_count s + 2 \<noteq> INT_MAX" "hit_count s \<noteq> INT_MAX" "eviction_count s \<noteq> INT_MAX"
    "count s < INT_MAX"
    using bounds by simp_all
  let ?A = "\<lparr>Valid = True, tag = tagBits g a, trackID = count s\<rparr>"
  let ?B = "\<lparr>Valid = True, tag = tagBits g b, trackID = count s + 1\<rparr>"
  let ?C = "\<lparr>Valid = True, tag = tagBits g c, trackID = count s + 3\<rparr>"
  let ?s1 = "s\<lparr>currCache := c0[si := [?A, y]], miss_count := miss_count s + 1,
              count := count s + 1\<rparr>"
  let ?s2 = "s\<lparr>currCache := c0[si := [?A, ?B]], miss_count := miss_count s + 2,
              count := count s + 2\<rparr>"
  let ?s3 = "s\<lparr>currCache := c0[si := [?A, ?B]], miss_count := miss_count s + 2,
              hit_count := hit_count s + 1, count := count s + 3\<rparr>"
  let ?s4 = "s\<lparr>currCache := c0[si := [?C, ?B]], miss_count := miss_count s + 3,
              hit_count := hit_count s + 1, eviction_count := eviction_count s + 1,
              count := count s + 4\<rparr>"
  have r1: "run_accesses g [a] s = Inr ?s1"
    using si xy inval b
    by (simp add: access_data_def ix k Let_def write_block_def incr_def Block_overwrite
        c0_def [symmetric])
  have r2: "run_accesses g [b] ?s1 = Inr ?s2"
    using si inval b tags
    by (simp add: access_data_def ix k Let_def write_block_def incr_def Block_overwrite)
  have r3: "run_accesses g [a] ?s2 = Inr ?s3"
    using si b tags g(3)
    by (simp add: access_data_def ix k Let_def write_block_def incr_def Block_overwrite)
  have r4: "run_accesses g [c] ?s3 = Inr ?s4"
    using si b tags
    by (simp add: access_data_def ix k Let_def write_block_def incr_def Block_overwrite)
  have "run_accesses g ([a] @ [b] @ [a] @ [c]) s = Inr ?s4"
    by (simp only: run_accesses_append r1 r2 r3 r4 sum.case)
  moreover have "currCache ?s4 ! setIndex g a = [?C, ?B]" using si by (simp add: ix)
  moreover have "\<not> cached g ?s4 a \<and> cached g ?s4 b \<and> cached g ?s4 c"
    using si tags g(2) by (simp add: cached_def ix ex_less_two)
  ultimately show ?thesis by (intro exI [of _ ?s4]) simp
qed

theorem fifo_evicts_first_inserted_witness:
  "\<exists>s'. run_accesses \<lparr>S = 1, K = 2, B = 16, policy = FIFO\<rparr> [0x00, 0x10, 0x00, 0x20]
           (initial_state \<lparr>S = 1, K = 2, B = 16, policy = FIFO\<rparr> zero_heap) = Inr s' \<and>
         currCache s' ! 0 = [\<lparr>Valid = True, tag = 2, trackID = 3\<rparr>,
                             \<lparr>Valid = True, tag = 1, trackID = 1\<rparr>] \<and>
         \<not> cached \<lparr>S = 1, K = 2, B = 16, policy = FIFO\<rparr> s' 0x00 \<and>
         cached \<lparr>S = 1, K = 2, B = 16, policy = FIFO\<rparr> s' 0x10 \<and>
         hit_count s' = 1 \<and> miss_count s' = 3 \<and> eviction_count s' = 1"
  using fifo_evicts_first_inserted [where g = "\<lparr>S = 1, K = 2, B = 16, policy = FIFO\<rparr>"
      and s = "initial_state \<lparr>S = 1, K = 2, B = 16, policy = FIFO\<rparr> zero_heap"
      and a = "0x00" and b = "0x10" and c = "0x20"] positive_examples(1)
  by (simp add: decode_simps wf_cache_def initial_state_def allocate_cache_def zero_heap_def
      upt_rec INT_MAX_def del: run_accesses.simps) blast

subsection \<open>C3: a miss in a full set\<close>

text \<open>
  C3. In a cache of the configured dimensions, an access that finds every line of its set
  valid and none with its tag, while some line of the set carries a stamp below
  \<^verbatim>\<open>INT_MAX\<close> (lemma \<open>reached_full_set_stamp\<close>: so it is in every state that a run
  has reached), increments \<^verbatim>\<open>miss_count\<close> and \<^verbatim>\<open>eviction_count\<close> and replaces a
  victim \<^verbatim>\<open>setIndexToEvict\<close>: no line of the set has a smaller stamp, every line
  before it has a strictly larger one (so among equal stamps the lowest index wins), and
  afterwards that line is valid and holds the new tag and the current value of
  \<^verbatim>\<open>count\<close>; every other line of the cache is unchanged. The witness has a tie: stamps
  7, 5, 5, and line 1 is the victim.
\<close>

theorem evict_min_stamp:
  assumes g: "positive_geometry g" and wf: "wf_cache g (currCache s)"
    and full: "\<forall>i < K g. Valid (currCache s ! setIndex g addr ! i)"
    and miss: "\<forall>i < K g. tag (currCache s ! setIndex g addr ! i) \<noteq> tagBits g addr"
    and low: "\<exists>i < K g. trackID (currCache s ! setIndex g addr ! i) < INT_MAX"
    and m: "miss_count s < INT_MAX" and e: "eviction_count s < INT_MAX"
  shows "\<exists>setIndexToEvict s'.
           setIndexToEvict < K g \<and>
           (\<forall>i < K g. trackID (currCache s ! setIndex g addr ! setIndexToEvict)
                        \<le> trackID (currCache s ! setIndex g addr ! i)) \<and>
           (\<forall>j < setIndexToEvict.
               trackID (currCache s ! setIndex g addr ! setIndexToEvict)
                 < trackID (currCache s ! setIndex g addr ! j)) \<and>
           access_data g addr s = Inr s' \<and>
           miss_count s' = miss_count s + 1 \<and>
           eviction_count s' = eviction_count s + 1 \<and>
           hit_count s' = hit_count s \<and> count s' = count s \<and>
           currCache s' ! setIndex g addr ! setIndexToEvict =
             \<lparr>Valid = True, tag = tagBits g addr, trackID = count s\<rparr> \<and>
           (\<forall>si < S g. \<forall>j < K g.
              (si, j) \<noteq> (setIndex g addr, setIndexToEvict) \<longrightarrow>
                 currCache s' ! si ! j = currCache s ! si ! j)"
proof -
  let ?c = "currCache s" and ?si = "setIndex g addr" and ?t = "tagBits g addr"
  let ?cs = "?c ! ?si"
  have si: "?si < length ?c" using setIndex_less [OF g] wf by (simp add: wf_cache_def)
  then have len: "length ?cs = K g" using wf by (simp add: wf_cache_def)
  from access_data_evict [OF miss full low] m e
  obtain v where v: "v < K g" "\<forall>i < K g. trackID (?cs ! v) \<le> trackID (?cs ! i)"
      "\<forall>j < v. trackID (?cs ! v) < trackID (?cs ! j)"
    and acc: "access_data g addr s =
      Inr (s\<lparr>currCache :=
              write_block ?c ?si v ((?cs ! v)\<lparr>Valid := True, tag := ?t, trackID := count s\<rparr>),
            miss_count := miss_count s + 1, eviction_count := eviction_count s + 1\<rparr>)"
    by (auto simp: incr_less)
  let ?b = "(?cs ! v)\<lparr>Valid := True, tag := ?t, trackID := count s\<rparr>"
  let ?s' = "s\<lparr>currCache := write_block ?c ?si v ?b,
               miss_count := miss_count s + 1, eviction_count := eviction_count s + 1\<rparr>"
  have wr: "currCache ?s' ! ?si ! v = \<lparr>Valid = True, tag = ?t, trackID = count s\<rparr>"
    using v(1) si len by (simp add: write_block_nth)
  have rest: "(si', j) \<noteq> (?si, v) \<longrightarrow> currCache ?s' ! si' ! j = ?c ! si' ! j" for si' j
    using write_block_nth_other [of si' ?si j v ?c ?b] by auto
  from v acc wr rest show ?thesis
    by (intro exI [of _ v] exI [of _ ?s']) simp
qed

theorem evict_min_stamp_witness:
  "\<exists>s'. access_data \<lparr>S = 1, K = 3, B = 16, policy = LRU\<rparr> 0x30
       \<lparr>currCache = [[\<lparr>Valid = True, tag = 0, trackID = 7\<rparr>,
                       \<lparr>Valid = True, tag = 1, trackID = 5\<rparr>,
                       \<lparr>Valid = True, tag = 2, trackID = 5\<rparr>]],
        miss_count = 4, hit_count = 5, eviction_count = 1, count = 9\<rparr> = Inr s' \<and>
     miss_count s' = 5 \<and> eviction_count s' = 2 \<and>
     currCache s' ! 0 ! 0 = \<lparr>Valid = True, tag = 0, trackID = 7\<rparr> \<and>
     currCache s' ! 0 ! 1 = \<lparr>Valid = True, tag = 3, trackID = 9\<rparr> \<and>
     currCache s' ! 0 ! 2 = \<lparr>Valid = True, tag = 2, trackID = 5\<rparr>"
proof -
  let ?g = "\<lparr>S = 1, K = 3, B = 16, policy = LRU\<rparr>"
  let ?cs = "[\<lparr>Valid = True, tag = 0, trackID = 7\<rparr>,
              \<lparr>Valid = True, tag = 1, trackID = 5\<rparr>,
              \<lparr>Valid = True, tag = 2, trackID = 5::int\<rparr>]"
  let ?s = "\<lparr>currCache = [?cs],
        miss_count = 4, hit_count = 5, eviction_count = 1, count = 9\<rparr>"
  have g: "positive_geometry ?g" by (simp add: positive_geometry_def)
  have wf: "wf_cache ?g (currCache ?s)" using wf_tie_example by simp
  have full: "\<forall>i < K ?g. Valid (currCache ?s ! setIndex ?g 0x30 ! i)"
    by (simp add: decode_simps less_three)
  have miss: "\<forall>i < K ?g. tag (currCache ?s ! setIndex ?g 0x30 ! i) \<noteq> tagBits ?g 0x30"
    by (simp add: decode_simps less_three)
  have low: "\<exists>i < K ?g. trackID (currCache ?s ! setIndex ?g 0x30 ! i) < INT_MAX"
    by (intro exI [of _ 0]) (simp add: decode_simps INT_MAX_def)
  have m: "miss_count ?s < INT_MAX" and e: "eviction_count ?s < INT_MAX"
    by (simp_all add: INT_MAX_def)
  from evict_min_stamp [OF g wf full miss low m e]
  obtain v s' where v: "v < K ?g"
    and mn: "\<forall>i < K ?g. trackID (currCache ?s ! setIndex ?g 0x30 ! v)
                        \<le> trackID (currCache ?s ! setIndex ?g 0x30 ! i)"
    and frst: "\<forall>j < v. trackID (currCache ?s ! setIndex ?g 0x30 ! v)
                        < trackID (currCache ?s ! setIndex ?g 0x30 ! j)"
    and acc: "access_data ?g 0x30 ?s = Inr s'" "miss_count s' = miss_count ?s + 1"
      "eviction_count s' = eviction_count ?s + 1"
    and new: "currCache s' ! setIndex ?g 0x30 ! v =
                \<lparr>Valid = True, tag = tagBits ?g 0x30, trackID = count ?s\<rparr>"
    and rest: "\<forall>si < S ?g. \<forall>j < K ?g. (si, j) \<noteq> (setIndex ?g 0x30, v) \<longrightarrow>
                 currCache s' ! si ! j = currCache ?s ! si ! j"
    by blast
  have "v = 0 \<or> v = 1 \<or> v = 2" using v by auto
  then have v1: "v = 1"
  proof (elim disjE)
    assume "v = 0"
    with mn have "trackID (?cs ! 0) \<le> trackID (?cs ! 1)"
      by (simp add: decode_simps less_three)
    then show ?thesis by simp
  next
    assume "v = 2"
    with frst have "trackID (?cs ! 2) < trackID (?cs ! 1)"
      by (simp add: decode_simps less_two)
    then show ?thesis by simp
  qed simp
  from rest have "currCache s' ! 0 ! 0 = ?cs ! 0" "currCache s' ! 0 ! 2 = ?cs ! 2"
    by (simp_all add: decode_simps v1 less_three)
  with acc new show ?thesis by (intro exI [of _ s']) (simp add: decode_simps v1)
qed

subsection \<open>C4: a hit\<close>

text \<open>
  C4. When some valid line of the addressed set holds the tag, the access increments
  \<^verbatim>\<open>hit_count\<close> and no other counter. Under LRU the stamp of the hit line becomes the
  current value of \<^verbatim>\<open>count\<close>; under FIFO the cache is left as it was. Under either
  policy every line keeps its valid flag and its tag, and every line other than the hit
  line is unchanged.
\<close>

theorem hit_updates:
  assumes g: "positive_geometry g" and wf: "wf_cache g (currCache s)"
    and hit: "i < K g" "Valid (currCache s ! setIndex g addr ! i)"
      "tag (currCache s ! setIndex g addr ! i) = tagBits g addr"
    and h: "hit_count s < INT_MAX"
  shows "\<exists>hitBlockIndex s'.
           hitBlockIndex < K g \<and>
           Valid (currCache s ! setIndex g addr ! hitBlockIndex) \<and>
           tag (currCache s ! setIndex g addr ! hitBlockIndex) = tagBits g addr \<and>
           access_data g addr s = Inr s' \<and>
           hit_count s' = hit_count s + 1 \<and> miss_count s' = miss_count s \<and>
           eviction_count s' = eviction_count s \<and> count s' = count s \<and>
           (policy g = LRU \<longrightarrow>
              trackID (currCache s' ! setIndex g addr ! hitBlockIndex) = count s) \<and>
           (policy g = FIFO \<longrightarrow> currCache s' = currCache s) \<and>
           (\<forall>si < S g. \<forall>j < K g.
              Valid (currCache s' ! si ! j) = Valid (currCache s ! si ! j) \<and>
              tag (currCache s' ! si ! j) = tag (currCache s ! si ! j) \<and>
              ((si, j) \<noteq> (setIndex g addr, hitBlockIndex) \<longrightarrow>
                 currCache s' ! si ! j = currCache s ! si ! j))"
proof -
  let ?c = "currCache s" and ?si = "setIndex g addr" and ?t = "tagBits g addr"
  let ?cs = "?c ! ?si"
  have si: "?si < length ?c" using setIndex_less [OF g] wf by (simp add: wf_cache_def)
  then have len: "length ?cs = K g" using wf by (simp add: wf_cache_def)
  from access_data_hit [OF hit(1,3,2)] h
  obtain hb where hb: "hb < K g" "tag (?cs ! hb) = ?t" "Valid (?cs ! hb)"
    and acc: "access_data g addr s =
      Inr (s\<lparr>currCache :=
              (if policy g = LRU
               then write_block ?c ?si hb ((?cs ! hb)\<lparr>trackID := count s\<rparr>)
               else ?c),
            hit_count := hit_count s + 1\<rparr>)"
    by (auto simp: incr_less)
  let ?b = "(?cs ! hb)\<lparr>trackID := count s\<rparr>"
  let ?s' = "s\<lparr>currCache := (if policy g = LRU then write_block ?c ?si hb ?b else ?c),
               hit_count := hit_count s + 1\<rparr>"
  have wr: "write_block ?c ?si hb ?b ! ?si ! hb = ?b"
    using hb(1) si len by (simp add: write_block_nth)
  have lru: "policy g = LRU \<longrightarrow> trackID (currCache ?s' ! ?si ! hb) = count s"
    using wr by simp
  have fifo: "policy g = FIFO \<longrightarrow> currCache ?s' = ?c" by simp
  have rest: "Valid (currCache ?s' ! si' ! j) = Valid (?c ! si' ! j) \<and>
              tag (currCache ?s' ! si' ! j) = tag (?c ! si' ! j) \<and>
              ((si', j) \<noteq> (?si, hb) \<longrightarrow> currCache ?s' ! si' ! j = ?c ! si' ! j)" for si' j
  proof (cases "(si', j) = (?si, hb)")
    case True
    with wr show ?thesis by simp
  next
    case False
    then have "si' \<noteq> ?si \<or> j \<noteq> hb" by simp
    from write_block_nth_other [OF this] show ?thesis by simp
  qed
  from hb acc lru fifo rest show ?thesis
    by (intro exI [of _ hb] exI [of _ ?s']) simp
qed

theorem hit_updates_witness:
  "\<exists>hitBlockIndex s'.
     access_data \<lparr>S = 1, K = 2, B = 16, policy = LRU\<rparr> 0x4
       \<lparr>currCache = [[\<lparr>Valid = True, tag = 0, trackID = 0\<rparr>,
                       \<lparr>Valid = True, tag = 1, trackID = 1\<rparr>]],
        miss_count = 2, hit_count = 0, eviction_count = 0, count = 2\<rparr> = Inr s' \<and>
     hitBlockIndex < 2 \<and> hit_count s' = 1 \<and> miss_count s' = 2 \<and> eviction_count s' = 0 \<and>
     trackID (currCache s' ! 0 ! hitBlockIndex) = 2"
  using hit_updates [of "\<lparr>S = 1, K = 2, B = 16, policy = LRU\<rparr>"
      "\<lparr>currCache = [[\<lparr>Valid = True, tag = 0, trackID = 0\<rparr>,
                       \<lparr>Valid = True, tag = 1, trackID = 1\<rparr>]],
        miss_count = 2, hit_count = 0, eviction_count = 0, count = 2\<rparr>" 0 "0x4"]
    positive_examples(2) wf_example
  by (simp add: decode_simps INT_MAX_def) blast

subsection \<open>C5: a Modify line\<close>

text \<open>
  C5 as stated promises exactly one miss followed by one hit for every Modify line on an
  address the cache has not seen. A Modify whose bytes straddle two cache lines makes two
  accesses in each pass: \<^verbatim>\<open>M c,8\<close> with 16-byte lines, on the empty cache, ends with two
  misses and two hits.
\<close>

theorem modify_two_lines_counterexample:
  "replay_line \<lparr>S = 2, K = 1, B = 16, policy = LRU\<rparr>
     \<lparr>operation = CHR ''M'', address = 0xc, len = 8\<rparr>
     (initial_state \<lparr>S = 2, K = 1, B = 16, policy = LRU\<rparr> zero_heap)
   = Inr \<lparr>currCache = [[\<lparr>Valid = True, tag = 0, trackID = 2\<rparr>],
                         [\<lparr>Valid = True, tag = 0, trackID = 3\<rparr>]],
          miss_count = 2, hit_count = 2, eviction_count = 0, count = 4\<rparr>
   \<and> \<not> cached \<lparr>S = 2, K = 1, B = 16, policy = LRU\<rparr>
         (initial_state \<lparr>S = 2, K = 1, B = 16, policy = LRU\<rparr> zero_heap) 0xc"
  by (simp add: cached_def run_simps zero_heap_def)

text \<open>
  C5, amended. For a Modify line of positive length whose bytes all lie in one cache line
  that is not in the cache, replayed in a state that a run has reached and with room for
  two more increments of \<^verbatim>\<open>count\<close>: the first pass is one access, a miss, and the
  second pass, over the same bytes, is one access, a hit.
\<close>

theorem modify_single_line:
  assumes run: "run_accesses g as (initial_state g heap) = Inr s"
    and g: "positive_geometry g"
    and op: "operation r = CHR ''M''" and len: "0 < len r"
    and one_line: "\<forall>i < len r. drop_bit (INT_LOG2 (B g)) (address r + of_nat i)
                               = drop_bit (INT_LOG2 (B g)) (address r)"
    and unseen: "\<not> cached g s (address r)"
    and bound: "count s + 2 \<le> INT_MAX"
  shows "\<exists>s1 s'.
           replay_pass g (pass_mask (B g)) (address r) [0..<len r] (- 1) s = Inr s1 \<and>
           miss_count s1 = miss_count s + 1 \<and> hit_count s1 = hit_count s \<and>
           count s1 = count s + 1 \<and>
           replay_pass g (pass_mask (S g)) (address r) [0..<len r] (- 1) s1 = Inr s' \<and>
           miss_count s' = miss_count s + 1 \<and> hit_count s' = hit_count s + 1 \<and>
           count s' = count s + 2 \<and>
           replay_line g r s = Inr s'"
proof -
  let ?v = "address r"
  have inv: "sim_inv g s" using sim_inv_initial run by (rule sim_inv_run)
  have p1: "replay_pass g (pass_mask (B g)) ?v [0..<len r] (- 1) st = run_accesses g [?v] st"
    and p2: "replay_pass g (pass_mask (S g)) ?v [0..<len r] (- 1) st = run_accesses g [?v] st"
    for st
    by (simp_all only: replay_pass_run pass_accesses_first [OF len one_line])
  have c: "count s < INT_MAX" using bound by simp
  from access_data_defined [OF inv g c]
  obtain t1 where a1: "access_data g ?v s = Inr t1" by blast
  have cnt1: "count t1 = count s" using a1 by (rule access_data_count)
  have m1: "miss_count t1 = miss_count s + 1 \<and> hit_count t1 = hit_count s"
    using access_data_effect [OF a1] unseen unfolding cached_def
    by (elim disjE exE conjE) auto
  have i1: "incr (count t1) = Inr (count s + 1)" using cnt1 c by (simp add: incr_less)
  let ?s1 = "t1\<lparr>count := count s + 1\<rparr>"
  have r1: "run_accesses g [?v] s = Inr ?s1" using a1 i1 by simp
  have inv1: "sim_inv g ?s1" by (rule sim_inv_step [OF inv a1 i1])
  have h1: "hit_count ?s1 < INT_MAX" using inv1 bound by (simp add: sim_inv_def)
  have "wf_cache g (currCache s)" using inv by (simp add: sim_inv_def)
  from access_data_present [OF this g a1]
  obtain i where i: "i < K g" "tag (currCache ?s1 ! setIndex g ?v ! i) = tagBits g ?v"
    "Valid (currCache ?s1 ! setIndex g ?v ! i)" by auto
  from access_data_hit [OF i] h1
  obtain t2 where a2: "access_data g ?v ?s1 = Inr t2"
    and m2: "hit_count t2 = hit_count t1 + 1" "miss_count t2 = miss_count t1"
    by (auto simp: incr_less)
  have cnt2: "count t2 = count s + 1" using access_data_count [OF a2] by simp
  have i2: "incr (count t2) = Inr (count s + 2)" using cnt2 bound by (simp add: incr_less)
  let ?s2 = "t2\<lparr>count := count s + 2\<rparr>"
  have r2: "run_accesses g [?v] ?s1 = Inr ?s2" using a2 i2 by simp
  have "replay_line g r s = Inr ?s2"
    using op by (simp add: replay_line_def p1 p2 r1 r2 del: run_accesses.simps)
  with r1 r2 m1 m2 show ?thesis
    by (intro exI [of _ ?s1] exI [of _ ?s2]) (simp add: p1 p2 del: run_accesses.simps)
qed

theorem modify_single_line_witness:
  "\<exists>s1 s'.
     replay_pass \<lparr>S = 2, K = 1, B = 16, policy = LRU\<rparr>
       (pass_mask 16) 0xc [0..<4] (- 1)
       (initial_state \<lparr>S = 2, K = 1, B = 16, policy = LRU\<rparr> zero_heap) = Inr s1 \<and>
     miss_count s1 = 1 \<and> hit_count s1 = 0 \<and>
     replay_line \<lparr>S = 2, K = 1, B = 16, policy = LRU\<rparr>
       \<lparr>operation = CHR ''M'', address = 0xc, len = 4\<rparr>
       (initial_state \<lparr>S = 2, K = 1, B = 16, policy = LRU\<rparr> zero_heap) = Inr s' \<and>
     miss_count s' = 1 \<and> hit_count s' = 1 \<and> count s' = 2"
proof -
  have run: "run_accesses \<lparr>S = 2, K = 1, B = 16, policy = LRU\<rparr> []
           (initial_state \<lparr>S = 2, K = 1, B = 16, policy = LRU\<rparr> zero_heap)
         = Inr (initial_state \<lparr>S = 2, K = 1, B = 16, policy = LRU\<rparr> zero_heap)"
    by simp
  have one_line: "\<forall>i < len \<lparr>operation = CHR ''M'', address = 0xc, len = 4\<rparr>.
      drop_bit (INT_LOG2 (B \<lparr>S = 2, K = 1, B = 16, policy = LRU\<rparr>))
        (address \<lparr>operation = CHR ''M'', address = 0xc, len = 4\<rparr> + of_nat i)
      = drop_bit (INT_LOG2 (B \<lparr>S = 2, K = 1, B = 16, policy = LRU\<rparr>))
        (address \<lparr>operation = CHR ''M'', address = 0xc :: 64 word, len = 4\<rparr>)"
    by (simp add: less_four INT_LOG2_16)
  from modify_single_line [OF run positive_examples(3) _ _ one_line]
  show ?thesis
    by (simp add: decode_simps initial_state_def allocate_cache_def zero_heap_def upt_rec
        INT_MAX_def cached_def del: replay_pass.simps) blast
qed

subsection \<open>C6: the counters add up\<close>

text \<open>
  C6. Any sequence of at most \<^verbatim>\<open>INT_MAX\<close> access calls from the initial state runs to
  its end, and there \<^verbatim>\<open>hit_count\<close> plus \<^verbatim>\<open>miss_count\<close> is the number of calls made
  and \<^verbatim>\<open>eviction_count\<close> is at most \<^verbatim>\<open>miss_count\<close>; replaying a trace with these
  accesses ends in that state. While fewer than \<^verbatim>\<open>INT_MAX\<close> calls have been made, a
  further call on any address returns and changes the counters in exactly one of three
  ways: a hit, a miss, or a miss with an eviction.
\<close>

theorem counter_conservation:
  assumes g: "positive_geometry g" and len: "int (length as) \<le> INT_MAX"
  shows "\<exists>s. run_accesses g as (initial_state g heap) = Inr s \<and>
           hit_count s + miss_count s = int (length as) \<and>
           eviction_count s \<le> miss_count s \<and> 0 \<le> hit_count s \<and> 0 \<le> eviction_count s \<and>
           (\<forall>trace. trace_accesses g trace = as \<longrightarrow>
              replay_trace g trace (initial_state g heap) = Inr s) \<and>
           (\<forall>a. int (length as) < INT_MAX \<longrightarrow>
              (\<exists>s1. access_data g a s = Inr s1 \<and>
                 ((hit_count s1 = hit_count s + 1 \<and> miss_count s1 = miss_count s \<and>
                     eviction_count s1 = eviction_count s)
                \<or> (hit_count s1 = hit_count s \<and> miss_count s1 = miss_count s + 1 \<and>
                     eviction_count s1 = eviction_count s)
                \<or> (hit_count s1 = hit_count s \<and> miss_count s1 = miss_count s + 1 \<and>
                     eviction_count s1 = eviction_count s + 1))))"
proof -
  from run_defined_initial [OF g len]
  obtain s where s: "run_accesses g as (initial_state g heap) = Inr s"
    and inv: "sim_inv g s" and c: "count s = int (length as)" by blast
  have sums: "hit_count s + miss_count s = int (length as)"
    "eviction_count s \<le> miss_count s" "0 \<le> hit_count s" "0 \<le> eviction_count s"
    using inv c by (simp_all add: sim_inv_def)
  have rep: "replay_trace g trace (initial_state g heap) = Inr s"
    if "trace_accesses g trace = as" for trace
    using that s by (simp add: replay_trace_run)
  have one: "\<exists>s1. access_data g a s = Inr s1 \<and>
                 ((hit_count s1 = hit_count s + 1 \<and> miss_count s1 = miss_count s \<and>
                     eviction_count s1 = eviction_count s)
                \<or> (hit_count s1 = hit_count s \<and> miss_count s1 = miss_count s + 1 \<and>
                     eviction_count s1 = eviction_count s)
                \<or> (hit_count s1 = hit_count s \<and> miss_count s1 = miss_count s + 1 \<and>
                     eviction_count s1 = eviction_count s + 1))"
    if "int (length as) < INT_MAX" for a
  proof -
    have "count s < INT_MAX" using that c by simp
    from access_data_defined [OF inv g this]
    obtain s1 where a: "access_data g a s = Inr s1" by blast
    have "(hit_count s1 = hit_count s + 1 \<and> miss_count s1 = miss_count s \<and>
                     eviction_count s1 = eviction_count s)
                \<or> (hit_count s1 = hit_count s \<and> miss_count s1 = miss_count s + 1 \<and>
                     eviction_count s1 = eviction_count s)
                \<or> (hit_count s1 = hit_count s \<and> miss_count s1 = miss_count s + 1 \<and>
                     eviction_count s1 = eviction_count s + 1)"
      using access_data_effect [OF a] by (elim disjE exE conjE) simp_all
    with a show ?thesis by blast
  qed
  from s sums rep one show ?thesis by blast
qed

theorem counter_conservation_witness:
  "\<exists>s. run_accesses \<lparr>S = 1, K = 2, B = 16, policy = FIFO\<rparr> [0x00, 0x10]
          (initial_state \<lparr>S = 1, K = 2, B = 16, policy = FIFO\<rparr> zero_heap) = Inr s \<and>
        hit_count s + miss_count s = 2 \<and> eviction_count s \<le> miss_count s \<and>
        (\<exists>s1. access_data \<lparr>S = 1, K = 2, B = 16, policy = FIFO\<rparr> 0x20 s = Inr s1 \<and>
           ((hit_count s1 = hit_count s + 1 \<and> miss_count s1 = miss_count s \<and>
               eviction_count s1 = eviction_count s)
          \<or> (hit_count s1 = hit_count s \<and> miss_count s1 = miss_count s + 1 \<and>
               eviction_count s1 = eviction_count s)
          \<or> (hit_count s1 = hit_count s \<and> miss_count s1 = miss_count s + 1 \<and>
               eviction_count s1 = eviction_count s + 1)))"
proof -
  let ?g = "\<lparr>S = 1, K = 2, B = 16, policy = FIFO\<rparr>"
  have len: "int (length [0x00, 0x10 :: 64 word]) \<le> INT_MAX"
    and lt: "int (length [0x00, 0x10 :: 64 word]) < INT_MAX"
    by (simp_all add: INT_MAX_def)
  from counter_conservation [OF positive_examples(1) len, of zero_heap] lt
  show ?thesis by simp blast
qed

subsection \<open>C7: no tag twice in a set\<close>

text \<open>
  C7. After any sequence of access calls from the initial, all-invalid cache, and also
  right after one more call, no set holds the same tag in two different valid lines.
\<close>

theorem no_duplicate_tags:
  assumes "run_accesses g as (initial_state g heap) = Inr s"
  shows "(\<forall>si < S g. \<forall>i < K g. \<forall>j < K g.
            i \<noteq> j \<and> Valid (currCache s ! si ! i) \<and> Valid (currCache s ! si ! j) \<longrightarrow>
            tag (currCache s ! si ! i) \<noteq> tag (currCache s ! si ! j)) \<and>
         (\<forall>a s1. access_data g a s = Inr s1 \<longrightarrow>
            (\<forall>si < S g. \<forall>i < K g. \<forall>j < K g.
               i \<noteq> j \<and> Valid (currCache s1 ! si ! i) \<and> Valid (currCache s1 ! si ! j) \<longrightarrow>
               tag (currCache s1 ! si ! i) \<noteq> tag (currCache s1 ! si ! j)))"
proof -
  have d: "\<forall>si < S g. \<forall>i < K g. \<forall>j < K g.
            i \<noteq> j \<and> Valid (c ! si ! i) \<and> Valid (c ! si ! j) \<longrightarrow>
            tag (c ! si ! i) \<noteq> tag (c ! si ! j)"
    if "wf_cache g c" "distinct_tags c" for c
  proof (intro allI impI)
    fix si i j
    assume si: "si < S g" and i: "i < K g" and j: "j < K g"
      and h: "i \<noteq> j \<and> Valid (c ! si ! i) \<and> Valid (c ! si ! j)"
    from si that have "c ! si \<in> set c" by (simp add: wf_cache_def)
    with that have "length (c ! si) = K g" "set_distinct (c ! si)"
      by (simp_all add: wf_cache_def distinct_tags_def)
    with i j h show "tag (c ! si ! i) \<noteq> tag (c ! si ! j)"
      unfolding set_distinct_def by metis
  qed
  have inv: "sim_inv g s" using sim_inv_initial assms by (rule sim_inv_run)
  then have "wf_cache g (currCache s)" "distinct_tags (currCache s)"
    by (simp_all add: sim_inv_def)
  then have first: "\<forall>si < S g. \<forall>i < K g. \<forall>j < K g.
            i \<noteq> j \<and> Valid (currCache s ! si ! i) \<and> Valid (currCache s ! si ! j) \<longrightarrow>
            tag (currCache s ! si ! i) \<noteq> tag (currCache s ! si ! j)" by (rule d)
  have "\<forall>si < S g. \<forall>i < K g. \<forall>j < K g.
               i \<noteq> j \<and> Valid (currCache s1 ! si ! i) \<and> Valid (currCache s1 ! si ! j) \<longrightarrow>
               tag (currCache s1 ! si ! i) \<noteq> tag (currCache s1 ! si ! j)"
    if "access_data g a s = Inr s1" for a s1
    using access_data_inv [OF inv that] d by blast
  with first show ?thesis by blast
qed

theorem no_duplicate_tags_witness:
  "run_accesses \<lparr>S = 1, K = 2, B = 16, policy = FIFO\<rparr> [0x00, 0x10]
     (initial_state \<lparr>S = 1, K = 2, B = 16, policy = FIFO\<rparr> zero_heap)
   = Inr \<lparr>currCache = [[\<lparr>Valid = True, tag = 0, trackID = 0\<rparr>,
                          \<lparr>Valid = True, tag = 1, trackID = 1\<rparr>]],
          miss_count = 2, hit_count = 0, eviction_count = 0, count = 2\<rparr>
   \<and> tag ([[\<lparr>Valid = True, tag = 0, trackID = 0\<rparr>,
             \<lparr>Valid = True, tag = 1, trackID = 1\<rparr>]] ! 0 ! 0)
     \<noteq> tag ([[\<lparr>Valid = True, tag = 0, trackID = 0\<rparr>,
             \<lparr>Valid = True, tag = 1, trackID = 1::int\<rparr>]] ! 0 ! 1)"
  using no_duplicate_tags [OF run_two_fills, THEN conjunct1, rule_format, of 0 0 1]
    run_two_fills
  by simp

subsection \<open>C8: the access clock\<close>

text \<open>
  C8. In a run of at most \<^verbatim>\<open>INT_MAX\<close> access calls from the initial state, call
  number \<open>N\<close> (counted from 0) and the next one both return. Call \<open>N\<close> starts with
  \<^verbatim>\<open>count\<close> equal to \<open>N\<close> and leaves it alone, and the replay then increments it by
  one, so the next call starts at \<open>N + 1\<close>. Every line that call \<open>N\<close> writes carries the
  stamp \<open>N\<close>, every line that call \<open>N + 1\<close> writes carries \<open>N + 1\<close>: a stamp of the first
  is strictly below a stamp of the second. Replaying a trace with these accesses is this
  run, and ends with \<^verbatim>\<open>count\<close> equal to the number of calls.
\<close>

theorem stamps_strictly_increase:
  assumes g: "positive_geometry g" and len: "int (length as) \<le> INT_MAX"
    and N: "Suc N < length as"
  shows "\<exists>sN tN tN1.
           run_accesses g (take N as) (initial_state g heap) = Inr sN \<and>
           count sN = int N \<and>
           access_data g (as ! N) sN = Inr tN \<and> count tN = int N \<and>
           run_accesses g (take (Suc N) as) (initial_state g heap)
             = Inr (tN\<lparr>count := int N + 1\<rparr>) \<and>
           access_data g (as ! Suc N) (tN\<lparr>count := int N + 1\<rparr>) = Inr tN1 \<and>
           count tN1 = int N + 1 \<and>
           run_accesses g (take (Suc (Suc N)) as) (initial_state g heap)
             = Inr (tN1\<lparr>count := int N + 2\<rparr>) \<and>
           (\<forall>si i. currCache tN ! si ! i \<noteq> currCache sN ! si ! i \<longrightarrow>
                    trackID (currCache tN ! si ! i) = int N) \<and>
           (\<forall>si i. currCache tN1 ! si ! i \<noteq> currCache tN ! si ! i \<longrightarrow>
                    trackID (currCache tN1 ! si ! i) = int N + 1) \<and>
           (\<forall>si i sj j.
              currCache tN ! si ! i \<noteq> currCache sN ! si ! i \<and>
              currCache tN1 ! sj ! j \<noteq> currCache tN ! sj ! j \<longrightarrow>
              trackID (currCache tN ! si ! i) < trackID (currCache tN1 ! sj ! j)) \<and>
           (\<forall>trace. trace_accesses g trace = as \<longrightarrow>
              (\<exists>s'. replay_trace g trace (initial_state g heap) = Inr s' \<and>
                    run_accesses g as (initial_state g heap) = Inr s' \<and>
                    count s' = int (length as)))"
proof -
  let ?i = "initial_state g heap"
  have "int (length (take N as)) \<le> INT_MAX" using len by simp
  from run_defined_initial [OF g this]
  obtain sN where sN: "run_accesses g (take N as) ?i = Inr sN"
    and inv: "sim_inv g sN" and cN: "count sN = int N" using N by auto
  have lt: "count sN < INT_MAX" using cN len N by simp
  from access_data_defined [OF inv g lt]
  obtain tN where a: "access_data g (as ! N) sN = Inr tN" by blast
  have ctN: "count tN = int N" using access_data_count [OF a] cN by simp
  have i1: "incr (count tN) = Inr (int N + 1)" using ctN lt cN by (simp add: incr_less)
  have tk1: "take (Suc N) as = take N as @ [as ! N]"
    using N by (simp add: take_Suc_conv_app_nth)
  have r1: "run_accesses g (take (Suc N) as) ?i = Inr (tN\<lparr>count := int N + 1\<rparr>)"
    unfolding tk1 by (rule run_accesses_snoc [OF sN a i1])
  have inv1: "sim_inv g (tN\<lparr>count := int N + 1\<rparr>)" by (rule sim_inv_step [OF inv a i1])
  have lt1: "count (tN\<lparr>count := int N + 1\<rparr>) < INT_MAX" using len N by simp
  from access_data_defined [OF inv1 g lt1]
  obtain tN1 where a1: "access_data g (as ! Suc N) (tN\<lparr>count := int N + 1\<rparr>) = Inr tN1"
    by blast
  have ctN1: "count tN1 = int N + 1" using access_data_count [OF a1] by simp
  have i2: "incr (count tN1) = Inr (int N + 2)" using ctN1 lt1 by (simp add: incr_less)
  have tk2: "take (Suc (Suc N)) as = take (Suc N) as @ [as ! Suc N]"
    using N by (simp add: take_Suc_conv_app_nth)
  have r2: "run_accesses g (take (Suc (Suc N)) as) ?i = Inr (tN1\<lparr>count := int N + 2\<rparr>)"
    unfolding tk2 by (rule run_accesses_snoc [OF r1 a1 i2])
  have w1: "trackID (currCache tN ! si ! i) = int N"
    if "currCache tN ! si ! i \<noteq> currCache sN ! si ! i" for si i
    using access_data_stamp [OF a that] cN by simp
  have w2: "trackID (currCache tN1 ! si ! i) = int N + 1"
    if "currCache tN1 ! si ! i \<noteq> currCache tN ! si ! i" for si i
    using access_data_stamp [OF a1, of si i] that by simp
  have ord: "trackID (currCache tN ! si ! i) < trackID (currCache tN1 ! sj ! j)"
    if "currCache tN ! si ! i \<noteq> currCache sN ! si ! i \<and>
        currCache tN1 ! sj ! j \<noteq> currCache tN ! sj ! j" for si i sj j
    using w1 [of si i] w2 [of sj j] that by simp
  from run_defined_initial [OF g len]
  obtain s' where s': "run_accesses g as ?i = Inr s'" "count s' = int (length as)" by blast
  have rep: "\<exists>s'. replay_trace g trace ?i = Inr s' \<and> run_accesses g as ?i = Inr s' \<and>
                  count s' = int (length as)"
    if "trace_accesses g trace = as" for trace
    using that s' by (simp add: replay_trace_run)
  from sN cN a ctN r1 a1 ctN1 r2 w1 w2 ord rep show ?thesis
    by (intro exI [of _ sN] exI [of _ tN] exI [of _ tN1]) blast
qed


theorem stamps_strictly_increase_witness:
  "\<exists>tN tN1.
     access_data \<lparr>S = 1, K = 2, B = 16, policy = FIFO\<rparr> 0x00
       (initial_state \<lparr>S = 1, K = 2, B = 16, policy = FIFO\<rparr> zero_heap) = Inr tN \<and>
     access_data \<lparr>S = 1, K = 2, B = 16, policy = FIFO\<rparr> 0x10 (tN\<lparr>count := 1\<rparr>) = Inr tN1 \<and>
     run_accesses \<lparr>S = 1, K = 2, B = 16, policy = FIFO\<rparr> [0x00, 0x10]
       (initial_state \<lparr>S = 1, K = 2, B = 16, policy = FIFO\<rparr> zero_heap)
       = Inr (tN1\<lparr>count := 2\<rparr>) \<and>
     trackID (currCache tN ! 0 ! 0) = 0 \<and> trackID (currCache tN1 ! 0 ! 1) = 1 \<and>
     trackID (currCache tN ! 0 ! 0) < trackID (currCache tN1 ! 0 ! 1)"
proof -
  let ?g = "\<lparr>S = 1, K = 2, B = 16, policy = FIFO\<rparr>"
  let ?as = "[0x00, 0x10 :: 64 word]"
  have len: "int (length ?as) \<le> INT_MAX" by (simp add: INT_MAX_def)
  have N: "Suc 0 < length ?as" by simp
  from stamps_strictly_increase [OF positive_examples(1) len N, of zero_heap]
  obtain sN tN tN1 where
    sN: "run_accesses ?g (take 0 ?as) (initial_state ?g zero_heap) = Inr sN"
    and a: "access_data ?g (?as ! 0) sN = Inr tN"
    and a1: "access_data ?g (?as ! Suc 0) (tN\<lparr>count := int 0 + 1\<rparr>) = Inr tN1"
    and r2: "run_accesses ?g (take (Suc (Suc 0)) ?as) (initial_state ?g zero_heap)
               = Inr (tN1\<lparr>count := int 0 + 2\<rparr>)"
    and w1: "\<forall>si i. currCache tN ! si ! i \<noteq> currCache sN ! si ! i \<longrightarrow>
                    trackID (currCache tN ! si ! i) = int 0"
    and w2: "\<forall>si i. currCache tN1 ! si ! i \<noteq> currCache tN ! si ! i \<longrightarrow>
                    trackID (currCache tN1 ! si ! i) = int 0 + 1"
    and ord: "\<forall>si i sj j.
              currCache tN ! si ! i \<noteq> currCache sN ! si ! i \<and>
              currCache tN1 ! sj ! j \<noteq> currCache tN ! sj ! j \<longrightarrow>
              trackID (currCache tN ! si ! i) < trackID (currCache tN1 ! sj ! j)"
    by blast
  have s0: "sN = initial_state ?g zero_heap" using sN by simp
  have t: "tN = \<lparr>currCache = [[\<lparr>Valid = True, tag = 0, trackID = 0\<rparr>,
                                 \<lparr>Valid = False, tag = 0, trackID = 0\<rparr>]],
                 miss_count = 1, hit_count = 0, eviction_count = 0, count = 0\<rparr>"
    using a first_access_fills by (simp add: s0)
  have t1: "tN1 = \<lparr>currCache = [[\<lparr>Valid = True, tag = 0, trackID = 0\<rparr>,
                                  \<lparr>Valid = True, tag = 1, trackID = 1\<rparr>]],
                  miss_count = 2, hit_count = 0, eviction_count = 0, count = 1\<rparr>"
    using a1 second_access_fills by (simp add: t)
  have ch1: "currCache tN ! 0 ! 0 \<noteq> currCache sN ! 0 ! 0"
    by (simp add: t s0 initial_state_def allocate_cache_def zero_heap_def upt_rec)
  have ch2: "currCache tN1 ! 0 ! 1 \<noteq> currCache tN ! 0 ! 1" by (simp add: t t1)
  from w1 ch1 have x1: "trackID (currCache tN ! 0 ! 0) = 0" by simp
  from w2 ch2 have x2: "trackID (currCache tN1 ! 0 ! 1) = 1" by simp
  from ord ch1 ch2 have x3: "trackID (currCache tN ! 0 ! 0) < trackID (currCache tN1 ! 0 ! 1)"
    by blast
  from a a1 r2 x1 x2 x3 show ?thesis
    by (intro exI [of _ tN] exI [of _ tN1]) (simp add: s0)
qed

subsection \<open>C9: the end-to-end example\<close>

text \<open>
  C9. With one set of one 16-byte line and policy LRU, the trace \<^verbatim>\<open>L 0,1\<close>,
  \<^verbatim>\<open>L 20,1\<close> (hexadecimal addresses) ends with no hit, two misses and one eviction,
  whatever the allocator left in the block, and the program prints the single line
  \<^verbatim>\<open>hits:0 misses:2 evictions:1\<close>.
\<close>

theorem end_to_end_example:
  "replay_trace \<lparr>S = 1, K = 1, B = 16, policy = LRU\<rparr>
     [\<lparr>operation = CHR ''L'', address = 0x0, len = 1\<rparr>,
      \<lparr>operation = CHR ''L'', address = 0x20, len = 1\<rparr>]
     (initial_state \<lparr>S = 1, K = 1, B = 16, policy = LRU\<rparr> heap)
   = Inr \<lparr>currCache = [[\<lparr>Valid = True, tag = 2, trackID = 1\<rparr>]],
          miss_count = 2, hit_count = 0, eviction_count = 1, count = 2\<rparr>
   \<and> csim_main \<lparr>S = 1, K = 1, B = 16, policy = LRU\<rparr> heap
     [\<lparr>operation = CHR ''L'', address = 0x0, len = 1\<rparr>,
      \<lparr>operation = CHR ''L'', address = 0x20, len = 1\<rparr>]
   = Inr (''hits:0 misses:2 evictions:1'' @ [CHR 0x0A])"
  by (simp add: csim_main_def run_simps print_summary_def show_int_def show_nat.simps)

subsection \<open>C10: an access leaves its line in the cache\<close>

text \<open>
  C10. In a state that a run has reached, with \<^verbatim>\<open>count\<close> below \<^verbatim>\<open>INT_MAX\<close>, a call
  of \<^verbatim>\<open>access_data\<close> on any address returns, and right afterwards the line of the
  address is cached: a valid line of its set holds its tag. A second call on the same
  address, whatever \<^verbatim>\<open>count\<close> is by then, is therefore a hit: it returns, increments
  \<^verbatim>\<open>hit_count\<close> and leaves \<^verbatim>\<open>miss_count\<close> and \<^verbatim>\<open>eviction_count\<close> unchanged
  (\<^verbatim>\<open>hit_count\<close> is at most \<open>count + 1\<close>, so below \<^verbatim>\<open>INT_MAX\<close> whenever the run has
  room for the second call).
\<close>

theorem access_then_hit:
  assumes run: "run_accesses g as (initial_state g heap) = Inr s"
    and g: "positive_geometry g"
    and room: "count s < INT_MAX"
  shows "\<exists>s1. access_data g a s = Inr s1 \<and> cached g s1 a \<and>
           hit_count s1 \<le> count s + 1 \<and>
           (\<forall>c. hit_count s1 < INT_MAX \<longrightarrow>
              (\<exists>s2. access_data g a (s1\<lparr>count := c\<rparr>) = Inr s2 \<and>
                    hit_count s2 = hit_count s1 + 1 \<and>
                    miss_count s2 = miss_count s1 \<and>
                    eviction_count s2 = eviction_count s1))"
proof -
  have inv: "sim_inv g s" using sim_inv_initial run by (rule sim_inv_run)
  then have wf: "wf_cache g (currCache s)" by (simp add: sim_inv_def)
  from access_data_defined [OF inv g room]
  obtain s1 where acc: "access_data g a s = Inr s1" by blast
  from access_data_present [OF wf g acc]
  have present: "\<exists>i < K g. Valid (currCache s1 ! setIndex g a ! i) \<and>
                           tag (currCache s1 ! setIndex g a ! i) = tagBits g a" .
  have hits: "hit_count s1 \<le> count s + 1"
    using access_data_inv [OF inv acc] by linarith
  have again: "\<exists>s2. access_data g a (s1\<lparr>count := c\<rparr>) = Inr s2 \<and>
                  hit_count s2 = hit_count s1 + 1 \<and>
                  miss_count s2 = miss_count s1 \<and>
                  eviction_count s2 = eviction_count s1" if "hit_count s1 < INT_MAX" for c
  proof -
    from present obtain i where i: "i < K g"
      "tag (currCache (s1\<lparr>count := c\<rparr>) ! setIndex g a ! i) = tagBits g a"
      "Valid (currCache (s1\<lparr>count := c\<rparr>) ! setIndex g a ! i)" by auto
    from access_data_hit [OF i] that show ?thesis by (auto simp: incr_less)
  qed
  from acc present hits again show ?thesis unfolding cached_def by blast
qed

theorem access_then_hit_witness:
  "\<exists>s1. access_data \<lparr>S = 1, K = 2, B = 16, policy = FIFO\<rparr> 0x20
           \<lparr>currCache = [[\<lparr>Valid = True, tag = 0, trackID = 0\<rparr>,
                           \<lparr>Valid = True, tag = 1, trackID = 1\<rparr>]],
            miss_count = 2, hit_count = 0, eviction_count = 0, count = 2\<rparr> = Inr s1 \<and>
         cached \<lparr>S = 1, K = 2, B = 16, policy = FIFO\<rparr> s1 0x20 \<and>
         (\<exists>s2. access_data \<lparr>S = 1, K = 2, B = 16, policy = FIFO\<rparr> 0x20 (s1\<lparr>count := 3\<rparr>)
                 = Inr s2 \<and>
               hit_count s2 = hit_count s1 + 1 \<and> miss_count s2 = miss_count s1 \<and>
               eviction_count s2 = eviction_count s1)"
proof -
  let ?g = "\<lparr>S = 1, K = 2, B = 16, policy = FIFO\<rparr>"
  let ?s = "\<lparr>currCache = [[\<lparr>Valid = True, tag = 0, trackID = 0\<rparr>,
                           \<lparr>Valid = True, tag = 1, trackID = 1\<rparr>]],
            miss_count = 2, hit_count = 0, eviction_count = 0, count = 2\<rparr>"
  have room: "count ?s < INT_MAX" by (simp add: INT_MAX_def)
  from access_then_hit [OF run_two_fills positive_examples(1) room, of "0x20"]
  obtain s1 where s1: "access_data ?g 0x20 ?s = Inr s1" "cached ?g s1 0x20"
    "hit_count s1 \<le> count ?s + 1"
    and again: "\<forall>c. hit_count s1 < INT_MAX \<longrightarrow>
              (\<exists>s2. access_data ?g 0x20 (s1\<lparr>count := c\<rparr>) = Inr s2 \<and>
                    hit_count s2 = hit_count s1 + 1 \<and>
                    miss_count s2 = miss_count s1 \<and>
                    eviction_count s2 = eviction_count s1)"
    by blast
  from s1(3) have "hit_count s1 < INT_MAX" by (simp add: INT_MAX_def)
  with again s1 show ?thesis by blast
qed

end
